theory Spec2Isabelle
  imports Complex_Main "HOL-Library.Multiset"
begin

chapter \<open>The program\<close>

section \<open>Common data\<close>

text \<open>
  Coordinates are the 2-tuples of floats that shapely hands out; the floats are read as
  real numbers throughout. A line string is its coordinate list (\<open>seg.coords\<close>).
  Every \<open>raise\<close>, failed \<open>assert\<close> and failed attribute or index access of the
  Python is a value of \<open>error\<close>.
\<close>

type_synonym coord = "real \<times> real"
type_synonym linestring = "coord list"

datatype error =
    AssertionError
  | AttributeError
  | IndexError
  | TypeError
  | UnboundLocalError
  | TransformNotInvertibleError
  | DetachedNodeError
  | RecursionError
  | ValueError

fun sequence_err :: "(error + 'a) list \<Rightarrow> error + 'a list" where
  "sequence_err [] = Inr []"
| "sequence_err (r # rs) =
     (case r of
        Inl e \<Rightarrow> Inl e
      | Inr v \<Rightarrow> (case sequence_err rs of Inl e \<Rightarrow> Inl e | Inr vs \<Rightarrow> Inr (v # vs)))"

section \<open>Raster sampling: \<open>hilev.values_from_raster\<close>\<close>

text \<open>
  A numpy 2D array is its shape and its cells. Indexing one axis of extent \<open>n\<close> with the
  integer \<open>k\<close> accepts \<open>-n \<le> k < n\<close> (a negative index counts from the end) and raises
  IndexError otherwise.
\<close>

record raster =
  nrows :: nat
  ncols :: nat
  cell :: "nat \<Rightarrow> nat \<Rightarrow> real"

definition np_axis :: "nat \<Rightarrow> int \<Rightarrow> error + nat" where
  "np_axis n k =
     (if 0 \<le> k \<and> k < int n then Inr (nat k)
      else if - int n \<le> k \<and> k < 0 then Inr (nat (int n + k))
      else Inl IndexError)"

definition raster_at :: "raster \<Rightarrow> int \<Rightarrow> int \<Rightarrow> error + real" where
  "raster_at r i j =
     (case np_axis (nrows r) i of
        Inl e \<Rightarrow> Inl e
      | Inr a \<Rightarrow> (case np_axis (ncols r) j of Inl e \<Rightarrow> Inl e | Inr b \<Rightarrow> Inr (cell r a b)))"

text \<open>
  The affine pixel-to-world transform of the raster profile, \<open>x' = a x + b y + c\<close>,
  \<open>y' = d x + e y + f\<close>, and its inverse \<open>~transform\<close>, which raises when the
  determinant is zero.
\<close>

record affine =
  af_a :: real
  af_b :: real
  af_c :: real
  af_d :: real
  af_e :: real
  af_f :: real

definition affine_apply :: "affine \<Rightarrow> coord \<Rightarrow> coord" where
  "affine_apply t p =
     (af_a t * fst p + af_b t * snd p + af_c t, af_d t * fst p + af_e t * snd p + af_f t)"

definition affine_invert :: "affine \<Rightarrow> error + affine" where
  "affine_invert t =
     (let det = af_a t * af_e t - af_b t * af_d t in
      if det = 0 then Inl TransformNotInvertibleError
      else
        let idet = 1 / det;
            ra = af_e t * idet; rb = - af_b t * idet;
            rd = - af_d t * idet; re = af_a t * idet
        in Inr \<lparr>af_a = ra, af_b = rb, af_c = - af_c t * ra - af_f t * rb,
                 af_d = rd, af_e = re, af_f = - af_c t * rd - af_f t * re\<rparr>)"

record raster_profile =
  height :: int
  width :: int
  transform :: affine

definition eps :: real where
  "eps = 1 / 10 ^ 10"

text \<open>
  Lines 790-791: \<open>i = max(eps, min(raster_profile['height']-1-eps, i))\<close>, the same for
  \<open>j\<close> with the width.
\<close>

definition clamp_pixel :: "int \<Rightarrow> real \<Rightarrow> real" where
  "clamp_pixel extent x = max eps (min (real_of_int extent - 1 - eps) x)"

text \<open>
  One pass of the loop body of the piecewise bilinear branch (lines 783-802), for the
  point \<open>xy\<close> already in the raster's coordinate system.
\<close>

definition bilinear_at :: "raster \<Rightarrow> raster_profile \<Rightarrow> affine \<Rightarrow> coord \<Rightarrow> error + real" where
  "bilinear_at r prof invt xy =
     (let ji = affine_apply invt xy;
          i = clamp_pixel (height prof) (snd ji - 1 / 2);
          j = clamp_pixel (width prof) (fst ji - 1 / 2)
      in case raster_at r \<lfloor>i\<rfloor> \<lfloor>j\<rfloor> of Inl e \<Rightarrow> Inl e | Inr b00 \<Rightarrow>
        (case raster_at r \<lfloor>i\<rfloor> \<lceil>j\<rceil> of Inl e \<Rightarrow> Inl e | Inr b01 \<Rightarrow>
        (case raster_at r \<lceil>i\<rceil> \<lfloor>j\<rfloor> of Inl e \<Rightarrow> Inl e | Inr b10 \<Rightarrow>
        (case raster_at r \<lceil>i\<rceil> \<lceil>j\<rceil> of Inl e \<Rightarrow> Inl e | Inr b11 \<Rightarrow>
           (let ii = i - of_int \<lfloor>i\<rfloor>;
                jj = j - of_int \<lfloor>j\<rfloor>;
                up = b00 + jj * (b01 - b00);
                dn = b10 + jj * (b11 - b10)
            in Inr (up + (dn - up) * ii))))))"

text \<open>
  The nearest branch (line 774): \<open>rasterio.transform.rowcol\<close> floors the inverse
  transform of each point, and the raster is indexed with the rows and columns it returns.
\<close>

definition nearest_at :: "raster \<Rightarrow> affine \<Rightarrow> coord \<Rightarrow> error + real" where
  "nearest_at r invt xy =
     (let cr = affine_apply invt xy in raster_at r \<lfloor>snd cr\<rfloor> \<lfloor>fst cr\<rfloor>)"

text \<open>
  \<open>values_from_raster\<close>. The reprojection \<open>workflow.warp.warp_xy\<close> is the external
  capability \<open>warp\<close>. An algorithm string that is neither of the two leaves \<open>values\<close>
  unassigned, and the \<open>return\<close> raises.
\<close>

definition values_from_raster ::
  "(coord \<Rightarrow> coord) \<Rightarrow> coord list \<Rightarrow> raster \<Rightarrow> raster_profile \<Rightarrow> string \<Rightarrow> error + real list" where
  "values_from_raster warp points r prof algorithm =
     (let points_raster_crs = map warp points in
      if algorithm = ''nearest'' then
        (case affine_invert (transform prof) of
           Inl e \<Rightarrow> Inl e
         | Inr invt \<Rightarrow> sequence_err (map (nearest_at r invt) points_raster_crs))
      else if algorithm = ''piecewise bilinear'' then
        (case affine_invert (transform prof) of
           Inl e \<Rightarrow> Inl e
         | Inr invt \<Rightarrow> sequence_err (map (bilinear_at r prof invt) points_raster_crs))
      else Inl UnboundLocalError)"

text \<open>The identity transform and a 2 by 2 raster, for concrete runs.\<close>

definition unit_affine :: affine where
  "unit_affine = \<lparr>af_a = 1, af_b = 0, af_c = 0, af_d = 0, af_e = 1, af_f = 0\<rparr>"

definition raster22 :: raster where
  "raster22 = \<lparr>nrows = 2, ncols = 2, cell = (\<lambda>a b. real a + 10 * real b)\<rparr>"

definition profile22 :: raster_profile where
  "profile22 = \<lparr>height = 2, width = 2, transform = unit_affine\<rparr>"

section \<open>Planar geometry\<close>

text \<open>
  \<open>workflow.utils.distance\<close> of two coordinates and shapely's \<open>length\<close> of a line
  string are the Euclidean ones.
\<close>

definition distance :: "coord \<Rightarrow> coord \<Rightarrow> real" where
  "distance p q = sqrt ((fst p - fst q)\<^sup>2 + (snd p - snd q)\<^sup>2)"

fun ls_length :: "linestring \<Rightarrow> real" where
  "ls_length (p # q # cs) = distance p q + ls_length (q # cs)"
| "ls_length cs = 0"

section \<open>River trees: \<open>workflow.tree.Tree\<close>\<close>

text \<open>
  Modelled from the spec: the class \<open>workflow.tree.Tree\<close> (module \<open>workflow/tree.py\<close>)
  is not among the sources. The spec's River Tree Node owns one segment, a back-reference
  to its parent (none at the root) and an ordered collection of child nodes, and its
  design notes place the nodes in an arena addressed by stable index. A \<open>store\<close> is
  that arena: the Python heap of \<open>Tree\<close> objects, a node being its index, so that two
  references to one node are one index, as the in-place cleanup operators need.
\<close>

record node =
  segment :: linestring
  parent :: "nat option"
  children :: "nat list"

type_synonym store = "node list"

text \<open>\<open>Tree(r)\<close>: a fresh node owning the segment, without parent or children.\<close>

definition Tree :: "linestring \<Rightarrow> node" where
  "Tree r = \<lparr>segment = r, parent = None, children = []\<rparr>"

text \<open>
  \<open>self.addChild(child)\<close>: the child is appended to the node's children and its
  back-reference is set to the node.
\<close>

definition addChild :: "store \<Rightarrow> nat \<Rightarrow> nat \<Rightarrow> store" where
  "addChild s self child =
     (let s1 = s[self := (s ! self)\<lparr>children := children (s ! self) @ [child]\<rparr>]
      in s1[child := (s1 ! child)\<lparr>parent := Some self\<rparr>])"

text \<open>
  \<open>self.remove()\<close>: the node is taken out of its parent's children and its back-reference
  is cleared. The spec gives the root no parent; detaching a node that has none is the
  error \<open>DetachedNodeError\<close>.
\<close>

definition remove :: "store \<Rightarrow> nat \<Rightarrow> error + store" where
  "remove s self =
     (case parent (s ! self) of
        None \<Rightarrow> Inl DetachedNodeError
      | Some p \<Rightarrow>
          (let s1 = s[p := (s ! p)\<lparr>children := remove1 self (children (s ! p))\<rparr>]
           in Inr (s1[self := (s1 ! self)\<lparr>parent := None\<rparr>])))"

text \<open>
  \<open>preOrder()\<close>: the node, then the pre-order of each child in turn. On a store whose
  child references loop, the Python recursion never returns a full traversal; the fuel
  bounds the depth, and \<open>None\<close> stands for that. A tree of a store of \<open>n\<close> nodes is
  at most \<open>n\<close> deep, so \<open>preOrder\<close> gives the traversal \<open>length s\<close> levels.
\<close>

fun preOrder_fuel :: "nat \<Rightarrow> store \<Rightarrow> nat \<Rightarrow> nat list option" where
  "preOrder_fuel 0 s n = None"
| "preOrder_fuel (Suc k) s n =
     (case those (map (preOrder_fuel k s) (children (s ! n))) of
        None \<Rightarrow> None
      | Some ls \<Rightarrow> Some (n # concat ls))"

definition preOrder :: "store \<Rightarrow> nat \<Rightarrow> nat list option" where
  "preOrder s n = preOrder_fuel (length s) s n"

text \<open>
  \<open>leaf_nodes()\<close>: the nodes of the traversal without children; \<open>dfs()\<close>: the segments
  of the traversal; \<open>leaves()\<close>: the segments of the leaf nodes.
\<close>

definition leaf_nodes :: "store \<Rightarrow> nat \<Rightarrow> nat list option" where
  "leaf_nodes s n = map_option (filter (\<lambda>m. children (s ! m) = [])) (preOrder s n)"

definition dfs :: "store \<Rightarrow> nat \<Rightarrow> linestring list option" where
  "dfs s n = map_option (map (\<lambda>m. segment (s ! m))) (preOrder s n)"

definition leaves :: "store \<Rightarrow> nat \<Rightarrow> linestring list option" where
  "leaves s n = map_option (map (\<lambda>m. segment (s ! m))) (leaf_nodes s n)"

text \<open>
  The shape of a tree in the store: the traversal from the root returns and visits no
  node twice, every visited node is allocated, the root has no parent, and the
  back-reference of every child of a visited node is that node.
\<close>

definition tree_ok :: "store \<Rightarrow> nat \<Rightarrow> bool" where
  "tree_ok s r =
     (case preOrder s r of
        None \<Rightarrow> False
      | Some ns \<Rightarrow>
          distinct ns \<and> (\<forall>n\<in>set ns. n < length s) \<and> parent (s ! r) = None
          \<and> (\<forall>n\<in>set ns. \<forall>c\<in>set (children (s ! n)). parent (s ! c) = Some n))"

text \<open>
  A list of nodes in which the children of every node come later than the node, as in a
  pre-order traversal.
\<close>

fun parents_first :: "store \<Rightarrow> nat list \<Rightarrow> bool" where
  "parents_first s [] = True"
| "parents_first s (n # ns) = (set (children (s ! n)) \<subseteq> set ns \<and> parents_first s ns)"

abbreviation short :: "real \<Rightarrow> store \<Rightarrow> nat \<Rightarrow> bool" where
  "short tol s n \<equiv> ls_length (segment (s ! n)) < tol"



section \<open>Forest construction: \<open>hydrography.make_global_tree\<close>\<close>

text \<open>
  \<open>cKDTree.query_ball_point(x, r)\<close>: the indices of the indexed points at distance at
  most \<open>r\<close> of \<open>x\<close>, here in ascending order.
\<close>

definition query_ball_point :: "coord list \<Rightarrow> coord \<Rightarrow> real \<Rightarrow> nat list" where
  "query_ball_point coords x r = filter (\<lambda>c. distance (coords ! c) x \<le> r) [0..<length coords]"

definition vec_sub :: "coord \<Rightarrow> coord \<Rightarrow> coord" where
  "vec_sub p q = (fst p - fst q, snd p - snd q)"

definition norm2 :: "coord \<Rightarrow> real" where
  "norm2 v = sqrt ((fst v)\<^sup>2 + (snd v)\<^sup>2)"

definition normalized :: "coord \<Rightarrow> coord" where
  "normalized v = (fst v / norm2 v, snd v / norm2 v)"

definition inner_prod :: "coord \<Rightarrow> coord \<Rightarrow> real" where
  "inner_prod u v = fst u * fst v + snd u * snd v"

text \<open>\<open>np.argmax\<close>: the first index of a largest entry.\<close>

fun argmax_from :: "nat \<Rightarrow> real \<Rightarrow> nat \<Rightarrow> real list \<Rightarrow> nat" where
  "argmax_from best v i [] = best"
| "argmax_from best v i (x # xs) =
     (if v < x then argmax_from i x (Suc i) xs else argmax_from best v (Suc i) xs)"

definition argmax :: "real list \<Rightarrow> nat" where
  "argmax xs = (case xs of [] \<Rightarrow> 0 | x # ys \<Rightarrow> argmax_from 0 x 1 ys)"

text \<open>
  Lines 296-304: among several candidates, the one whose initial edge is best aligned with
  the final edge of the segment \<open>seg\<close>.
\<close>

definition tangent_winner :: "linestring list \<Rightarrow> linestring \<Rightarrow> nat list \<Rightarrow> nat" where
  "tangent_winner rivers seg closest =
     (let my_tan = normalized (vec_sub (last seg) (seg ! (length seg - 2)));
          other_tans = map (\<lambda>c. normalized (vec_sub (rivers ! c ! 1) (rivers ! c ! 0))) closest;
          dots = map (\<lambda>ot. inner_prod ot my_tan) other_tans
      in closest ! argmax dots)"

text \<open>
  One pass of the loop of lines 286-311 for the node \<open>j\<close>; the state is the store and the
  list \<open>trees\<close> of roots.
\<close>

definition attach :: "linestring list \<Rightarrow> real \<Rightarrow> nat \<Rightarrow> store \<times> nat list \<Rightarrow> store \<times> nat list" where
  "attach rivers tol j st =
     (let s = fst st; trees = snd st;
          coords = map hd rivers;
          closest = query_ball_point coords (last (segment (s ! j))) tol
      in if length closest > 1 then
           (addChild s (tangent_winner rivers (segment (s ! j)) closest) j, trees)
         else if length closest = 0 then (s, trees @ [j])
         else (addChild s (closest ! 0) j, trees))"

definition make_global_tree :: "linestring list \<Rightarrow> real \<Rightarrow> store \<times> nat list" where
  "make_global_tree rivers tol =
     (if length rivers = 0 then ([], [])
      else fold (attach rivers tol) [0..<length rivers] (map Tree rivers, []))"

section \<open>Tree cleanup: \<open>hydrography.cleanup\<close>, \<open>prune\<close>, \<open>merge\<close>, \<open>simplify\<close>\<close>

text \<open>
  \<open>prune\<close> (lines 363-368): each leaf node shorter than the tolerance is removed. The
  leaf nodes are those of the tree when the loop starts.
\<close>

fun prune_loop :: "real \<Rightarrow> nat list \<Rightarrow> store \<Rightarrow> error + store" where
  "prune_loop prune_tol [] s = Inr s"
| "prune_loop prune_tol (leaf # ls) s =
     (if ls_length (segment (s ! leaf)) < prune_tol then
        (case remove s leaf of Inl e \<Rightarrow> Inl e | Inr s' \<Rightarrow> prune_loop prune_tol ls s')
      else prune_loop prune_tol ls s)"

definition prune :: "store \<Rightarrow> nat \<Rightarrow> real \<Rightarrow> error + store" where
  "prune s tree prune_tol =
     (case leaf_nodes s tree of
        None \<Rightarrow> Inl RecursionError
      | Some ls \<Rightarrow> prune_loop prune_tol ls s)"

text \<open>
  \<open>merge\<close> (lines 370-378). The inner loop gives each child of the short node the first
  coordinate of the node's parent as its last coordinate and adds it to that parent;
  \<open>node.parent\<close> of a node without parent is \<open>None\<close>, and \<open>None.segment\<close> raises
  AttributeError.
\<close>

fun rehome :: "nat \<Rightarrow> nat list \<Rightarrow> store \<Rightarrow> error + store" where
  "rehome nd [] s = Inr s"
| "rehome nd (child # cs) s =
     (case parent (s ! nd) of
        None \<Rightarrow> Inl AttributeError
      | Some p \<Rightarrow>
          (let s1 = s[child := (s ! child)
                     \<lparr>segment := butlast (segment (s ! child)) @ [hd (segment (s ! p))]\<rparr>]
           in rehome nd cs (addChild s1 p child)))"

definition merge_node :: "real \<Rightarrow> nat \<Rightarrow> store \<Rightarrow> error + store" where
  "merge_node tol nd s =
     (if ls_length (segment (s ! nd)) < tol then
        (case rehome nd (children (s ! nd)) s of Inl e \<Rightarrow> Inl e | Inr s' \<Rightarrow> remove s' nd)
      else Inr s)"

fun merge_loop :: "real \<Rightarrow> nat list \<Rightarrow> store \<Rightarrow> error + store" where
  "merge_loop tol [] s = Inr s"
| "merge_loop tol (nd # ns) s =
     (case merge_node tol nd s of Inl e \<Rightarrow> Inl e | Inr s' \<Rightarrow> merge_loop tol ns s')"

definition merge :: "store \<Rightarrow> nat \<Rightarrow> real \<Rightarrow> error + store" where
  "merge s tree tol =
     (case preOrder s tree of
        None \<Rightarrow> Inl RecursionError
      | Some ns \<Rightarrow> merge_loop tol ns s)"

text \<open>
  \<open>simplify\<close> (lines 380-384): every segment is replaced by its simplified form. The
  simplification itself is shapely's, the parameter \<open>simp\<close>.
\<close>

definition simplify :: "(linestring \<Rightarrow> real \<Rightarrow> linestring) \<Rightarrow> store \<Rightarrow> nat \<Rightarrow> real \<Rightarrow> error + store" where
  "simplify simp s tree tol =
     (case preOrder s tree of
        None \<Rightarrow> Inl RecursionError
      | Some ns \<Rightarrow> Inr (fold (\<lambda>n t. t[n := (t ! n)\<lparr>segment := simp (segment (t ! n)) tol\<rparr>]) ns s))"

text \<open>
  \<open>cleanup\<close> (lines 344-361); a tolerance that is \<open>None\<close> switches its operator off.
\<close>

fun simplify_all :: "(linestring \<Rightarrow> real \<Rightarrow> linestring) \<Rightarrow> real \<Rightarrow> nat list \<Rightarrow> store \<Rightarrow> error + store" where
  "simplify_all simp tol [] s = Inr s"
| "simplify_all simp tol (tree # ts) s =
     (case simplify simp s tree tol of Inl e \<Rightarrow> Inl e | Inr s' \<Rightarrow> simplify_all simp tol ts s')"

definition merge_prune_tree :: "real option \<Rightarrow> real option \<Rightarrow> nat \<Rightarrow> store \<Rightarrow> error + store" where
  "merge_prune_tree prune_tol merge_tol tree s =
     (case (case merge_tol of None \<Rightarrow> Inr s | Some mt \<Rightarrow> merge s tree mt) of
        Inl e \<Rightarrow> Inl e
      | Inr s1 \<Rightarrow>
          (if merge_tol \<noteq> prune_tol \<and> prune_tol \<noteq> None then prune s1 tree (the prune_tol)
           else Inr s1))"

fun merge_prune_all :: "real option \<Rightarrow> real option \<Rightarrow> nat list \<Rightarrow> store \<Rightarrow> error + store" where
  "merge_prune_all prune_tol merge_tol [] s = Inr s"
| "merge_prune_all prune_tol merge_tol (tree # ts) s =
     (case merge_prune_tree prune_tol merge_tol tree s of
        Inl e \<Rightarrow> Inl e
      | Inr s' \<Rightarrow> merge_prune_all prune_tol merge_tol ts s')"

definition cleanup ::
  "(linestring \<Rightarrow> real \<Rightarrow> linestring) \<Rightarrow> store \<Rightarrow> nat list \<Rightarrow> real option \<Rightarrow> real option \<Rightarrow> real option
     \<Rightarrow> error + store" where
  "cleanup simp s rivers simp_tol prune_tol merge_tol =
     (case (case simp_tol of None \<Rightarrow> Inr s | Some st \<Rightarrow> simplify_all simp st rivers s) of
        Inl e \<Rightarrow> Inl e
      | Inr s1 \<Rightarrow> merge_prune_all prune_tol merge_tol rivers s1)"

section \<open>Split-form boundaries: \<open>workflow.hucs.HUCs\<close>\<close>

text \<open>
  Modelled from the spec: the class \<open>workflow.hucs.HUCs\<close> is not among the sources. The
  spec's Split-Form Boundary is a segment pool, a mapping from stable handles to
  segments, with \<open>boundaries\<close> and \<open>intersections\<close>, each a collection of components
  that list segment handles in order. The pool is a list and a handle is an index into
  it; \<open>add\<close> appends and returns the new index. A component is the list of its handles,
  and is referred to by the collection it is in and its position there.
\<close>

record hucs =
  segments :: "linestring list"
  boundaries :: "nat list list"
  intersections :: "nat list list"

datatype comp_ref = Boundary nat | Intersection nat

text \<open>
  \<open>itertools.chain(hucs.boundaries.items(), hucs.intersections.items())\<close>: every
  component with its reference, the boundaries first.
\<close>

definition components :: "hucs \<Rightarrow> (comp_ref \<times> nat list) list" where
  "components h =
     map (\<lambda>i. (Boundary i, boundaries h ! i)) [0..<length (boundaries h)]
     @ map (\<lambda>i. (Intersection i, intersections h ! i)) [0..<length (intersections h)]"

text \<open>\<open>component.add_many(new_handles)\<close>.\<close>

definition component_add_many :: "comp_ref \<Rightarrow> nat list \<Rightarrow> hucs \<Rightarrow> hucs" where
  "component_add_many c new_handles h =
     (case c of
        Boundary i \<Rightarrow> h\<lparr>boundaries := (boundaries h)[i := boundaries h ! i @ new_handles]\<rparr>
      | Intersection i \<Rightarrow>
          h\<lparr>intersections := (intersections h)[i := intersections h ! i @ new_handles]\<rparr>)"

section \<open>Capabilities the snapping code consumes\<close>

text \<open>
  The functions of \<open>workflow.utils\<close>, \<open>workflow.tree\<close> and \<open>workflow.hucs\<close> and the
  shapely operations that \<open>hydrography.py\<close> calls and that are not among the sources are
  parameters of the model, gathered in one record: \<open>close(p1, p2, tol)\<close> with its default
  tolerance, \<open>in_neighborhood(point, line, tol)\<close>, \<open>nearest_point(line, point)\<close>,
  shapely's \<open>line.project(point)\<close>, \<open>workflow.tree.is_consistent(tree)\<close>, and
  \<open>polygons_ok\<close>, which tells whether \<open>list(hucs.polygons())\<close> returns rather than
  raising AssertionError.
\<close>

record env =
  close :: "coord \<Rightarrow> coord \<Rightarrow> real \<Rightarrow> bool"
  close_tol :: real
  in_neighborhood :: "coord \<Rightarrow> linestring \<Rightarrow> real \<Rightarrow> bool"
  nearest_point :: "linestring \<Rightarrow> coord \<Rightarrow> coord"
  project :: "linestring \<Rightarrow> coord \<Rightarrow> real"
  is_consistent :: "store \<Rightarrow> nat \<Rightarrow> bool"
  polygons_ok :: "hucs \<Rightarrow> bool"

section \<open>Phase 1: \<open>hydrography.snap_polygon_endpoints\<close>\<close>

text \<open>
  \<open>cKDTree.query(x)\<close> for one point: the distance to a nearest indexed point and its
  index, the first one among equally near points.
\<close>

fun argmin_from :: "nat \<Rightarrow> real \<Rightarrow> nat \<Rightarrow> real list \<Rightarrow> nat" where
  "argmin_from best v i [] = best"
| "argmin_from best v i (x # xs) =
     (if x < v then argmin_from i x (Suc i) xs else argmin_from best v (Suc i) xs)"

definition argmin :: "real list \<Rightarrow> nat" where
  "argmin xs = (case xs of [] \<Rightarrow> 0 | x # ys \<Rightarrow> argmin_from 0 x 1 ys)"

definition kd_query :: "coord list \<Rightarrow> coord \<Rightarrow> real \<times> nat" where
  "kd_query coords x =
     (let ds = map (\<lambda>c. distance c x) coords; i = argmin ds in (ds ! i, i))"

text \<open>
  Lines 127-129: the indexed coordinates are the last coordinate of every segment that
  \<open>dfs()\<close> yields, for every tree, followed by the first coordinate of every segment that
  \<open>leaves()\<close> yields.
\<close>

definition river_endpoints :: "store \<Rightarrow> nat list \<Rightarrow> error + coord list" where
  "river_endpoints s rivers =
     (case those (map (dfs s) rivers) of
        None \<Rightarrow> Inl RecursionError
      | Some dss \<Rightarrow>
          (case those (map (leaves s) rivers) of
             None \<Rightarrow> Inl RecursionError
           | Some lss \<Rightarrow> Inr (map last (concat dss) @ map hd (concat lss))))"

text \<open>The body of the loop of lines 134-145 for one pooled segment.\<close>

definition move_endpoints :: "coord list \<Rightarrow> real \<Rightarrow> linestring \<Rightarrow> linestring" where
  "move_endpoints coords tol seg =
     (let q0 = kd_query coords (hd seg); q1 = kd_query coords (last seg) in
      if min (fst q0) (fst q1) < tol then
        (let new_seg0 = (if fst q0 < tol then seg[0 := coords ! snd q0] else seg);
             new_seg1 = (if fst q1 < tol then new_seg0[length seg - 1 := coords ! snd q1]
                         else new_seg0)
         in new_seg1)
      else seg)"

text \<open>
  \<open>snap_polygon_endpoints\<close>. Building the index over no coordinates at all raises in
  scipy.
\<close>

definition snap_polygon_endpoints :: "hucs \<Rightarrow> store \<Rightarrow> nat list \<Rightarrow> real \<Rightarrow> error + hucs" where
  "snap_polygon_endpoints h s rivers tol =
     (case river_endpoints s rivers of
        Inl e \<Rightarrow> Inl e
      | Inr coords \<Rightarrow>
          if coords = [] then Inl ValueError
          else Inr (h\<lparr>segments := map (move_endpoints coords tol) (segments h)\<rparr>))"

section \<open>Phase 2: \<open>hydrography._snap_and_cut\<close> and \<open>snap_endpoints\<close>\<close>

text \<open>
  \<open>_snap_and_cut\<close> (lines 71-85): the point on the line nearest to \<open>point\<close> when it is
  nearer than \<open>tol\<close>, unless it is nearer than \<open>1e-7\<close> and \<open>point\<close> is close to a
  coordinate of the line already; \<open>None\<close> otherwise.
\<close>

definition snap_and_cut :: "env \<Rightarrow> coord \<Rightarrow> linestring \<Rightarrow> real \<Rightarrow> coord option" where
  "snap_and_cut G point line tol =
     (if in_neighborhood G point line tol then
        (let nearest_p = nearest_point G line point;
             dist = distance nearest_p point
         in if dist < tol then
              (if dist < 1 / 10 ^ 7 \<and> list_ex (\<lambda>c. close G point c (close_tol G)) line
               then None else Some nearest_p)
            else None)
      else None)"

text \<open>
  The scan of one component for one endpoint (lines 159-166 and 182-189): the first
  handle whose segment yields a snap point, with that point.
\<close>

fun first_snap :: "env \<Rightarrow> real \<Rightarrow> linestring list \<Rightarrow> coord \<Rightarrow> nat list \<Rightarrow> (nat \<times> coord) option" where
  "first_snap G tol pool pt [] = None"
| "first_snap G tol pool pt (seg_handle # hs) =
     (case snap_and_cut G pt (pool ! seg_handle) tol of
        Some new_coord \<Rightarrow> Some (seg_handle, new_coord)
      | None \<Rightarrow> first_snap G tol pool pt hs)"

text \<open>
  Lines 172-174: while more than two coordinates are left and the second is nearer to the
  new coordinate than the first, the first is dropped. Lines 195-197 do the same from the
  other end.
\<close>

fun trim_front :: "coord \<Rightarrow> linestring \<Rightarrow> linestring" where
  "trim_front new_coord (a # b # c # cs) =
     (if distance new_coord b < distance new_coord a then trim_front new_coord (b # c # cs)
      else a # b # c # cs)"
| "trim_front new_coord cs = cs"

definition trim_back :: "coord \<Rightarrow> linestring \<Rightarrow> linestring" where
  "trim_back new_coord cs = rev (trim_front new_coord (rev cs))"

text \<open>
  An entry of \<open>to_add\<close>: the segment handle, the component, the endpoint of the river
  (Python index \<open>0\<close> or \<open>-1\<close>) and the node.
\<close>

datatype endpoint = At_first | At_last

record request =
  req_handle :: nat
  req_comp :: comp_ref
  req_end :: endpoint
  req_node :: nat

text \<open>\<open>node.segment.coords[endpoint]\<close>.\<close>

definition end_coord :: "store \<Rightarrow> endpoint \<Rightarrow> nat \<Rightarrow> coord" where
  "end_coord s e nd =
     (case e of At_first \<Rightarrow> hd (segment (s ! nd)) | At_last \<Rightarrow> last (segment (s ! nd)))"

definition moved_river :: "endpoint \<Rightarrow> coord \<Rightarrow> linestring \<Rightarrow> linestring" where
  "moved_river e new_coord river =
     (case e of
        At_first \<Rightarrow> (trim_front new_coord river)[0 := new_coord]
      | At_last \<Rightarrow>
          (let t = trim_back new_coord river in t[length t - 1 := new_coord]))"

text \<open>One of the two stages of lines 159-202 for one node and one component.\<close>

definition snap_stage ::
  "env \<Rightarrow> real \<Rightarrow> linestring list \<Rightarrow> endpoint \<Rightarrow> nat \<Rightarrow> comp_ref \<times> nat list
     \<Rightarrow> store \<times> request list \<Rightarrow> store \<times> request list" where
  "snap_stage G tol pool e nd cmpt st =
     (let s = fst st; river = segment (s ! nd) in
      case first_snap G tol pool (end_coord s e nd) (snd cmpt) of
        None \<Rightarrow> st
      | Some hc \<Rightarrow>
          (s[nd := (s ! nd)\<lparr>segment := moved_river e (snd hc) river\<rparr>],
           snd st @ [\<lparr>req_handle = fst hc, req_comp = fst cmpt, req_end = e, req_node = nd\<rparr>]))"

definition snap_node :: "env \<Rightarrow> real \<Rightarrow> hucs \<Rightarrow> nat \<Rightarrow> store \<times> request list \<Rightarrow> store \<times> request list" where
  "snap_node G tol h nd st =
     fold (\<lambda>cmpt st'. snap_stage G tol (segments h) At_last nd cmpt
                        (snap_stage G tol (segments h) At_first nd cmpt st'))
       (components h) st"

text \<open>Lines 153-202: all nodes of the traversal.\<close>

definition collect_snaps :: "env \<Rightarrow> real \<Rightarrow> hucs \<Rightarrow> nat list \<Rightarrow> store \<Rightarrow> store \<times> request list" where
  "collect_snaps G tol h ns s = fold (snap_node G tol h) ns (s, [])"

text \<open>
  Lines 205-209: \<open>to_add_dict\<close>, the requests by segment handle; a Python dictionary
  keeps its keys in the order of their first insertion.
\<close>

fun dict_append :: "nat \<Rightarrow> 'v \<Rightarrow> (nat \<times> 'v list) list \<Rightarrow> (nat \<times> 'v list) list" where
  "dict_append k v [] = [(k, [v])]"
| "dict_append k v (kv # d) =
     (if fst kv = k then (k, snd kv @ [v]) # d else kv # dict_append k v d)"

definition to_add_dict :: "request list \<Rightarrow> (nat \<times> request list) list" where
  "to_add_dict to_add = foldl (\<lambda>d r. dict_append (req_handle r) r d) [] to_add"

text \<open>
  Lines 212-224. \<open>equal\<close> compares the coordinates two requests insert with tolerance
  \<open>1e-5\<close> and asserts that close requests name one component; a request is kept when it
  equals none of those kept before it.
\<close>

definition req_coord :: "store \<Rightarrow> request \<Rightarrow> coord" where
  "req_coord s p = end_coord s (req_end p) (req_node p)"

fun find_equal :: "env \<Rightarrow> store \<Rightarrow> request \<Rightarrow> request list \<Rightarrow> error + bool" where
  "find_equal G s p1 [] = Inr False"
| "find_equal G s p1 (p2 # ps) =
     (if close G (req_coord s p1) (req_coord s p2) (1 / 10 ^ 5) then
        (if req_comp p1 = req_comp p2 then Inr True else Inl AssertionError)
      else find_equal G s p1 ps)"

fun dedup :: "env \<Rightarrow> store \<Rightarrow> request list \<Rightarrow> request list \<Rightarrow> error + request list" where
  "dedup G s new_list [] = Inr new_list"
| "dedup G s new_list (p1 # ps) =
     (case find_equal G s p1 new_list of
        Inl e \<Rightarrow> Inl e
      | Inr found \<Rightarrow> dedup G s (if found then new_list else new_list @ [p1]) ps)"

fun dedup_all :: "env \<Rightarrow> store \<Rightarrow> (nat \<times> request list) list \<Rightarrow> error + (nat \<times> request list) list" where
  "dedup_all G s [] = Inr []"
| "dedup_all G s (kv # d) =
     (case dedup G s [] (snd kv) of
        Inl e \<Rightarrow> Inl e
      | Inr new_list \<Rightarrow>
          (case dedup_all G s d of Inl e \<Rightarrow> Inl e | Inr d2 \<Rightarrow> Inr ((fst kv, new_list) # d2)))"

text \<open>
  Lines 233-250: the coordinates of the segment, flagged \<open>False\<close>, and the coordinates
  to insert, flagged \<open>True\<close>, sorted by their arclength \<open>seg.project\<close> along the segment
  (\<open>sorted\<close> is stable, as \<open>sort_key\<close> is). For a closed segment the last coordinate is
  left out, the sorted list is rotated to start at its first inserted coordinate, which
  is repeated at the end, and both ends are flagged \<open>False\<close>.
\<close>

definition flag_sorted :: "env \<Rightarrow> linestring \<Rightarrow> coord list \<Rightarrow> coord list \<Rightarrow> (coord \<times> bool) list" where
  "flag_sorted G seg olds news =
     sort_key (\<lambda>a. project G seg (fst a))
       (map (\<lambda>c. (c, False)) olds @ map (\<lambda>c. (c, True)) news)"

definition breakpoint_inds :: "(coord \<times> bool) list \<Rightarrow> nat list" where
  "breakpoint_inds nc = filter (\<lambda>i. snd (nc ! i)) [0..<length nc]"

definition rotate_loop :: "(coord \<times> bool) list \<Rightarrow> nat \<Rightarrow> (coord \<times> bool) list" where
  "rotate_loop nc0 b =
     (let nc1 = drop b nc0 @ take (b + 1) nc0;
          nc2 = nc1[0 := (fst (nc1 ! 0), False)]
      in nc2[length nc2 - 1 := (fst (nc2 ! (length nc2 - 1)), False)])"

definition new_coords :: "env \<Rightarrow> linestring \<Rightarrow> coord list \<Rightarrow> error + (coord \<times> bool) list" where
  "new_coords G seg pts =
     (if \<not> close G (hd seg) (last seg) (close_tol G) then Inr (flag_sorted G seg seg pts)
      else
        (let nc0 = flag_sorted G seg (butlast seg) pts;
             inds = breakpoint_inds nc0
         in if \<not> length inds > 0 then Inl AssertionError
            else Inr (rotate_loop nc0 (hd inds))))"

text \<open>
  Lines 253-261: the new segments, from each break to the next, with the two assertions.
\<close>

fun split_at :: "'a list \<Rightarrow> nat \<Rightarrow> nat list \<Rightarrow> error + 'a list list" where
  "split_at cs ind_start [] =
     (if Suc ind_start < length cs then Inr [drop ind_start cs] else Inl AssertionError)"
| "split_at cs ind_start (ind_end # inds) =
     (if ind_end = 0 then Inl AssertionError
      else
        (case split_at cs ind_end inds of
           Inl e \<Rightarrow> Inl e
         | Inr segs \<Rightarrow> Inr (take (ind_end + 1 - ind_start) (drop ind_start cs) # segs)))"

definition new_segments :: "env \<Rightarrow> linestring \<Rightarrow> coord list \<Rightarrow> error + linestring list" where
  "new_segments G seg pts =
     (case new_coords G seg pts of
        Inl e \<Rightarrow> Inl e
      | Inr nc \<Rightarrow> split_at (map fst nc) 0 (breakpoint_inds nc))"

text \<open>
  Lines 227-266 for one entry of \<open>to_add_dict2\<close>: the first new segment replaces the
  segment of the handle, the others are added to the pool, and their new handles are
  added to the component of the first request.
\<close>

definition insert_group :: "env \<Rightarrow> store \<Rightarrow> nat \<times> request list \<Rightarrow> hucs \<Rightarrow> error + hucs" where
  "insert_group G s grp h =
     (let seg = segments h ! fst grp;
          pts = map (req_coord s) (snd grp)
      in case new_segments G seg pts of
           Inl e \<Rightarrow> Inl e
         | Inr new_segs \<Rightarrow>
             (let pool = (segments h)[fst grp := hd new_segs];
                  new_handles = [length pool..<length pool + length (tl new_segs)]
              in Inr (component_add_many (req_comp (hd (snd grp))) new_handles
                        (h\<lparr>segments := pool @ tl new_segs\<rparr>))))"

fun insert_all :: "env \<Rightarrow> store \<Rightarrow> (nat \<times> request list) list \<Rightarrow> hucs \<Rightarrow> error + hucs" where
  "insert_all G s [] h = Inr h"
| "insert_all G s (grp # d) h =
     (case insert_group G s grp h of Inl e \<Rightarrow> Inl e | Inr h' \<Rightarrow> insert_all G s d h')"

text \<open>\<open>snap_endpoints\<close> (lines 147-268) on the boundary and the store of the trees.\<close>

definition snap_endpoints :: "env \<Rightarrow> real \<Rightarrow> nat \<Rightarrow> hucs \<times> store \<Rightarrow> error + hucs \<times> store" where
  "snap_endpoints G tol tree hs =
     (case preOrder (snd hs) tree of
        None \<Rightarrow> Inl RecursionError
      | Some ns \<Rightarrow>
          (let st = collect_snaps G tol (fst hs) ns (snd hs) in
           case dedup_all G (fst st) (to_add_dict (snd st)) of
             Inl e \<Rightarrow> Inl e
           | Inr d2 \<Rightarrow>
               (case insert_all G (fst st) d2 (fst hs) of
                  Inl e \<Rightarrow> Inl e
                | Inr h' \<Rightarrow> Inr (h', fst st))))"

fun snap_endpoints_all :: "env \<Rightarrow> real \<Rightarrow> nat list \<Rightarrow> hucs \<times> store \<Rightarrow> error + hucs \<times> store" where
  "snap_endpoints_all G tol [] hs = Inr hs"
| "snap_endpoints_all G tol (tree # ts) hs =
     (case snap_endpoints G tol tree hs of
        Inl e \<Rightarrow> Inl e
      | Inr hs' \<Rightarrow> snap_endpoints_all G tol ts hs')"

section \<open>The snap operation: \<open>hydrography.snap\<close>\<close>

text \<open>
  Lines 18-69. The result is the Boolean returned, with the boundary and the store as
  the call leaves them, or the exception that escapes. The two assertions of the type of
  the arguments hold by typing. A failed \<open>assert\<close> on the rivers at entry and the
  unguarded \<open>list(hucs.polygons())\<close> of line 23 raise AssertionError; after each phase
  the same two checks make \<open>snap\<close> return \<open>False\<close>.
\<close>

definition checks :: "env \<Rightarrow> hucs \<Rightarrow> store \<Rightarrow> nat list \<Rightarrow> bool" where
  "checks G h s rivers = (list_all (is_consistent G s) rivers \<and> polygons_ok G h)"

definition snap ::
  "env \<Rightarrow> hucs \<Rightarrow> store \<Rightarrow> nat list \<Rightarrow> real \<Rightarrow> real option \<Rightarrow> error + bool \<times> hucs \<times> store" where
  "snap G h s rivers tol tol_triples =
     (if \<not> list_all (is_consistent G s) rivers then Inl AssertionError
      else if \<not> polygons_ok G h then Inl AssertionError
      else if length rivers = 0 then Inr (True, h, s)
      else
        (let tt = (case tol_triples of None \<Rightarrow> tol | Some t \<Rightarrow> t) in
         case snap_polygon_endpoints h s rivers tt of
           Inl e \<Rightarrow> Inl e
         | Inr h1 \<Rightarrow>
             if \<not> list_all (is_consistent G s) rivers then Inr (False, h1, s)
             else if \<not> polygons_ok G h1 then Inr (False, h1, s)
             else
               (case snap_endpoints_all G tol rivers (h1, s) of
                  Inl e \<Rightarrow> Inl e
                | Inr hs2 \<Rightarrow>
                    if \<not> list_all (is_consistent G (snd hs2)) rivers
                    then Inr (False, fst hs2, snd hs2)
                    else if \<not> polygons_ok G (fst hs2) then Inr (False, fst hs2, snd hs2)
                    else Inr (True, fst hs2, snd hs2))))"

section \<open>A planar instance of the capabilities\<close>

text \<open>
  Modelled from the spec: the helpers of \<open>workflow.utils\<close>, \<open>workflow.tree\<close> and
  \<open>workflow.hucs\<close> are not among the sources. The spec names them as the geometry
  capability and the two consistency checks: \<open>nearest_point(line, point)\<close>,
  \<open>project(line, point)\<close> giving an arclength, a broad-phase bounding check, agreement of
  coordinates within an absolute tolerance, a node's last coordinate equal to its
  parent's first, and rings that close. The instance below computes them in the plane;
  it serves the concrete runs only, and the general statements hold for every instance.
\<close>

definition edge_nearest :: "coord \<Rightarrow> coord \<Rightarrow> coord \<Rightarrow> coord" where
  "edge_nearest a b p =
     (let d = vec_sub b a; l2 = inner_prod d d;
          t = (if l2 = 0 then 0 else max 0 (min 1 (inner_prod (vec_sub p a) d / l2)))
      in (fst a + t * fst d, snd a + t * snd d))"

fun line_nearest :: "linestring \<Rightarrow> coord \<Rightarrow> coord" where
  "line_nearest (a # b # c # cs) p =
     (let q = edge_nearest a b p; r = line_nearest (b # c # cs) p
      in if distance q p \<le> distance r p then q else r)"
| "line_nearest [a, b] p = edge_nearest a b p"
| "line_nearest [a] p = a"
| "line_nearest [] p = p"

fun line_project :: "linestring \<Rightarrow> coord \<Rightarrow> real" where
  "line_project (a # b # c # cs) p =
     (let q = edge_nearest a b p; r = line_nearest (b # c # cs) p
      in if distance q p \<le> distance r p then distance a q
         else distance a b + line_project (b # c # cs) p)"
| "line_project [a, b] p = distance a (edge_nearest a b p)"
| "line_project cs p = 0"

definition box_near :: "coord \<Rightarrow> linestring \<Rightarrow> real \<Rightarrow> bool" where
  "box_near p line tol =
     (list_ex (\<lambda>c. fst c - tol \<le> fst p) line \<and> list_ex (\<lambda>c. fst p \<le> fst c + tol) line
      \<and> list_ex (\<lambda>c. snd c - tol \<le> snd p) line \<and> list_ex (\<lambda>c. snd p \<le> snd c + tol) line)"

definition coords_close :: "coord \<Rightarrow> coord \<Rightarrow> real \<Rightarrow> bool" where
  "coords_close p q tol = (\<bar>fst p - fst q\<bar> < tol \<and> \<bar>snd p - snd q\<bar> < tol)"

definition tree_consistent :: "store \<Rightarrow> nat \<Rightarrow> bool" where
  "tree_consistent s r =
     (case preOrder s r of
        None \<Rightarrow> False
      | Some ns \<Rightarrow>
          list_all (\<lambda>n. list_all (\<lambda>c. last (segment (s ! c)) = hd (segment (s ! n)))
                          (children (s ! n))) ns)"

definition rings_close :: "hucs \<Rightarrow> bool" where
  "rings_close h =
     list_all (\<lambda>ring. ring = []
                 \<or> hd (segments h ! hd ring) = last (segments h ! last ring)) (boundaries h)"

definition plane :: env where
  "plane = \<lparr>close = coords_close, close_tol = 1 / 10 ^ 7, in_neighborhood = box_near,
            nearest_point = line_nearest, project = line_project,
            is_consistent = tree_consistent, polygons_ok = rings_close\<rparr>"

text \<open>The trees of the concrete runs below.\<close>

definition segA :: linestring where
  "segA = [(0, 0), (1, 1)]"

definition segB :: linestring where
  "segB = [(1, 1), (2, 2)]"

definition storeAB :: store where
  "storeAB = [\<lparr>segment = segA, parent = Some 1, children = []\<rparr>,
              \<lparr>segment = segB, parent = None, children = [0]\<rparr>]"

definition storeB :: store where
  "storeB = [\<lparr>segment = segA, parent = None, children = []\<rparr>,
             \<lparr>segment = segB, parent = None, children = []\<rparr>]"

text \<open>
  A consistent tree whose root reach, of length 0.05, has one child reach that ends where
  the root reach starts.
\<close>

definition short_root_store :: store where
  "short_root_store = [\<lparr>segment = [(0, 0), (1 / 20, 0)], parent = None, children = [1]\<rparr>,
                       \<lparr>segment = [(-1, 0), (0, 0)], parent = Some 0, children = []\<rparr>]"

text \<open>
  A boundary of one pooled segment that starts at distance 0.01 of \<open>(1,1)\<close>, where
  reach \<open>A\<close> of the example forest ends.
\<close>

definition hX :: hucs where
  "hX = \<lparr>segments = [[(1, 101 / 100), (5, 5)]], boundaries = [[0]], intersections = []\<rparr>"

text \<open>
  A boundary of two pooled segments that form one closed ring, and a consistent tree
  with two leaves whose first coordinates lie 0.05 above the segment of handle 0, one
  millionth apart from each other; then the store and the two entries of \<open>to_add\<close>
  that the first loop of \<open>snap_endpoints\<close> produces on them with \<open>tol = 0.1\<close>, and the
  boundary after the insertion.
\<close>

definition hD :: hucs where
  "hD = \<lparr>segments = [[(0, 0), (1, 0)], [(1, 0), (1, 3), (0, 3), (0, 0)]],
         boundaries = [[0, 1]], intersections = []\<rparr>"

definition sD :: store where
  "sD = [\<lparr>segment = [(1 / 2, 1), (1 / 2, 2)], parent = None, children = [1, 2]\<rparr>,
         \<lparr>segment = [(1 / 2, 1 / 20), (1 / 2, 1)], parent = Some 0, children = []\<rparr>,
         \<lparr>segment = [(500001 / 1000000, 1 / 20), (1 / 2, 1)], parent = Some 0, children = []\<rparr>]"

definition sD1 :: store where
  "sD1 = [\<lparr>segment = [(1 / 2, 1), (1 / 2, 2)], parent = None, children = [1, 2]\<rparr>,
          \<lparr>segment = [(1 / 2, 0), (1 / 2, 1)], parent = Some 0, children = []\<rparr>,
          \<lparr>segment = [(500001 / 1000000, 1 / 20), (1 / 2, 1)], parent = Some 0, children = []\<rparr>]"

definition sD2 :: store where
  "sD2 = [\<lparr>segment = [(1 / 2, 1), (1 / 2, 2)], parent = None, children = [1, 2]\<rparr>,
          \<lparr>segment = [(1 / 2, 0), (1 / 2, 1)], parent = Some 0, children = []\<rparr>,
          \<lparr>segment = [(500001 / 1000000, 0), (1 / 2, 1)], parent = Some 0, children = []\<rparr>]"

definition r1 :: request where
  "r1 = \<lparr>req_handle = 0, req_comp = Boundary 0, req_end = At_first, req_node = 1\<rparr>"

definition r2 :: request where
  "r2 = \<lparr>req_handle = 0, req_comp = Boundary 0, req_end = At_first, req_node = 2\<rparr>"

definition hD2 :: hucs where
  "hD2 = \<lparr>segments = [[(0, 0), (1 / 2, 0)], [(1, 0), (1, 3), (0, 3), (0, 0)],
                       [(1 / 2, 0), (1, 0)]],
          boundaries = [[0, 1, 2]], intersections = []\<rparr>"

text \<open>
  A boundary that is one closed segment, a square far from the example forest; and a
  unit square of two pooled segments with a tree of one reach that ends 0.05 beyond the
  corner \<open>(1,0)\<close>, on the line through the segment of handle 0.
\<close>

definition hSq :: hucs where
  "hSq = \<lparr>segments = [[(10, 10), (11, 10), (11, 11), (10, 11), (10, 10)]],
          boundaries = [[0]], intersections = []\<rparr>"

definition hE :: hucs where
  "hE = \<lparr>segments = [[(0, 0), (1, 0)], [(1, 0), (1, 1), (0, 1), (0, 0)]],
         boundaries = [[0, 1]], intersections = []\<rparr>"

definition sE :: store where
  "sE = [\<lparr>segment = [(1 / 2, 1 / 2), (21 / 20, 0)], parent = None, children = []\<rparr>]"



section \<open>The pipeline entry point: \<open>hilev.simplify_and_prune\<close>\<close>







chapter \<open>Properties\<close>

section \<open>Properties of raster sampling\<close>

lemma sequence_err_all_Inr:
  "(\<And>r. r \<in> set rs \<Longrightarrow> \<exists>v. r = Inr v) \<Longrightarrow> \<exists>vs. sequence_err rs = Inr vs \<and> length vs = length rs"
proof (induction rs)
  case Nil
  show ?case by simp
next
  case (Cons r rs)
  from Cons.prems obtain v where r: "r = Inr v" by auto
  from Cons obtain vs where "sequence_err rs = Inr vs" "length vs = length rs" by auto
  with r show ?case by simp
qed

lemma clamp_pixel_bounds:
  assumes "2 \<le> extent"
  shows "eps \<le> clamp_pixel extent x" and "clamp_pixel extent x \<le> real_of_int extent - 1 - eps"
proof -
  have e: "0 < eps" "eps < 1 / 2" by (simp_all add: eps_def)
  from assms have "2 \<le> real_of_int extent" by simp
  with e have "eps \<le> real_of_int extent - 1 - eps" by linarith
  then show "eps \<le> clamp_pixel extent x" "clamp_pixel extent x \<le> real_of_int extent - 1 - eps"
    by (simp_all add: clamp_pixel_def)
qed

lemma clamp_pixel_index:
  assumes "2 \<le> extent"
  shows "0 \<le> \<lfloor>clamp_pixel extent x\<rfloor>" and "\<lceil>clamp_pixel extent x\<rceil> \<le> extent - 1"
    and "\<lfloor>clamp_pixel extent x\<rfloor> \<le> extent - 1" and "0 \<le> \<lceil>clamp_pixel extent x\<rceil>"
proof -
  have e: "0 < eps" by (simp add: eps_def)
  note b = clamp_pixel_bounds [OF assms, of x]
  from b(1) e have pos: "0 \<le> clamp_pixel extent x" by linarith
  then show f0: "0 \<le> \<lfloor>clamp_pixel extent x\<rfloor>" by simp
  from b(2) e have "clamp_pixel extent x \<le> real_of_int (extent - 1)" by simp
  then show c1: "\<lceil>clamp_pixel extent x\<rceil> \<le> extent - 1" by (simp only: ceiling_le_iff)
  have "\<lfloor>clamp_pixel extent x\<rfloor> \<le> \<lceil>clamp_pixel extent x\<rceil>" by (rule floor_le_ceiling)
  with c1 show "\<lfloor>clamp_pixel extent x\<rfloor> \<le> extent - 1" by linarith
  from pos show "0 \<le> \<lceil>clamp_pixel extent x\<rceil>" by (simp add: ceiling_le_iff le_ceiling_iff)
qed

lemma raster_at_in_range:
  assumes "0 \<le> i" "i < int (nrows r)" "0 \<le> j" "j < int (ncols r)"
  shows "raster_at r i j = Inr (cell r (nat i) (nat j))"
  using assms by (simp add: raster_at_def np_axis_def)

lemma bilinear_at_returns:
  assumes "2 \<le> height prof" "2 \<le> width prof"
    and "int (nrows r) = height prof" "int (ncols r) = width prof"
  shows "\<exists>v. bilinear_at r prof invt xy = Inr v"
proof -
  define i where "i = clamp_pixel (height prof) (snd (affine_apply invt xy) - 1 / 2)"
  define j where "j = clamp_pixel (width prof) (fst (affine_apply invt xy) - 1 / 2)"
  have ri: "0 \<le> \<lfloor>i\<rfloor>" "\<lfloor>i\<rfloor> < int (nrows r)" "0 \<le> \<lceil>i\<rceil>" "\<lceil>i\<rceil> < int (nrows r)"
    using clamp_pixel_index [OF assms(1)] assms(3) unfolding i_def by fastforce+
  have rj: "0 \<le> \<lfloor>j\<rfloor>" "\<lfloor>j\<rfloor> < int (ncols r)" "0 \<le> \<lceil>j\<rceil>" "\<lceil>j\<rceil> < int (ncols r)"
    using clamp_pixel_index [OF assms(2)] assms(4) unfolding j_def by fastforce+
  have "raster_at r \<lfloor>i\<rfloor> \<lfloor>j\<rfloor> = Inr (cell r (nat \<lfloor>i\<rfloor>) (nat \<lfloor>j\<rfloor>))"
    "raster_at r \<lfloor>i\<rfloor> \<lceil>j\<rceil> = Inr (cell r (nat \<lfloor>i\<rfloor>) (nat \<lceil>j\<rceil>))"
    "raster_at r \<lceil>i\<rceil> \<lfloor>j\<rfloor> = Inr (cell r (nat \<lceil>i\<rceil>) (nat \<lfloor>j\<rfloor>))"
    "raster_at r \<lceil>i\<rceil> \<lceil>j\<rceil> = Inr (cell r (nat \<lceil>i\<rceil>) (nat \<lceil>j\<rceil>))"
    using ri rj by (simp_all add: raster_at_in_range)
  then show ?thesis
    unfolding bilinear_at_def Let_def i_def [symmetric] j_def [symmetric] by simp
qed

text \<open>
  Claim C9, as amended. In the piecewise bilinear mode, on a raster of at least two rows
  and two columns whose shape is the one its profile declares and whose transform is
  invertible, sampling never raises, whatever the points: it returns one value per point.
  The fractional pixel coordinates are clamped to the interval from \<open>eps\<close> to
  \<open>extent - 1 - eps\<close> with \<open>eps = 1e-10\<close>, so the floor and the ceiling of a clamped
  coordinate are both valid indices. Nothing is said of the nearest mode.
\<close>

theorem values_from_raster_bilinear_in_bounds:
  assumes "2 \<le> height prof" and "2 \<le> width prof"
    and "int (nrows r) = height prof" and "int (ncols r) = width prof"
    and "af_a (transform prof) * af_e (transform prof)
           - af_b (transform prof) * af_d (transform prof) \<noteq> 0"
  shows "(\<exists>vs. values_from_raster warp points r prof ''piecewise bilinear'' = Inr vs
            \<and> length vs = length points)
       \<and> (\<forall>x. eps \<le> clamp_pixel (height prof) x
              \<and> clamp_pixel (height prof) x \<le> real_of_int (height prof) - 1 - eps
              \<and> 0 \<le> \<lfloor>clamp_pixel (height prof) x\<rfloor>
              \<and> \<lceil>clamp_pixel (height prof) x\<rceil> < int (nrows r))
       \<and> (\<forall>x. eps \<le> clamp_pixel (width prof) x
              \<and> clamp_pixel (width prof) x \<le> real_of_int (width prof) - 1 - eps
              \<and> 0 \<le> \<lfloor>clamp_pixel (width prof) x\<rfloor>
              \<and> \<lceil>clamp_pixel (width prof) x\<rceil> < int (ncols r))"
proof -
  obtain invt where invt: "affine_invert (transform prof) = Inr invt"
    using assms(5) by (simp add: affine_invert_def Let_def)
  have "\<exists>vs. sequence_err (map (bilinear_at r prof invt) (map warp points)) = Inr vs
          \<and> length vs = length (map (bilinear_at r prof invt) (map warp points))"
  proof (rule sequence_err_all_Inr)
    fix q assume "q \<in> set (map (bilinear_at r prof invt) (map warp points))"
    then obtain p where "q = bilinear_at r prof invt (warp p)"
      unfolding set_map by blast
    with bilinear_at_returns [OF assms(1-4), of invt "warp p"] show "\<exists>v. q = Inr v" by simp
  qed
  then have ret: "\<exists>vs. values_from_raster warp points r prof ''piecewise bilinear'' = Inr vs
            \<and> length vs = length points"
    by (simp add: values_from_raster_def invt)
  have rows: "eps \<le> clamp_pixel (height prof) x
              \<and> clamp_pixel (height prof) x \<le> real_of_int (height prof) - 1 - eps
              \<and> 0 \<le> \<lfloor>clamp_pixel (height prof) x\<rfloor>
              \<and> \<lceil>clamp_pixel (height prof) x\<rceil> < int (nrows r)" for x
    using clamp_pixel_bounds [OF assms(1), of x] clamp_pixel_index [OF assms(1), of x] assms(3)
    by fastforce
  have cols: "eps \<le> clamp_pixel (width prof) x
              \<and> clamp_pixel (width prof) x \<le> real_of_int (width prof) - 1 - eps
              \<and> 0 \<le> \<lfloor>clamp_pixel (width prof) x\<rfloor>
              \<and> \<lceil>clamp_pixel (width prof) x\<rceil> < int (ncols r)" for x
    using clamp_pixel_bounds [OF assms(2), of x] clamp_pixel_index [OF assms(2), of x] assms(4)
    by fastforce
  from ret rows cols show ?thesis by blast
qed

theorem values_from_raster_bilinear_in_bounds_witness:
  "2 \<le> height profile22 \<and> 2 \<le> width profile22
   \<and> int (nrows raster22) = height profile22 \<and> int (ncols raster22) = width profile22
   \<and> af_a (transform profile22) * af_e (transform profile22)
        - af_b (transform profile22) * af_d (transform profile22) \<noteq> 0
   \<and> (\<exists>vs. values_from_raster id [(-5, 7), (1 / 2, 1 / 2)] raster22 profile22
               ''piecewise bilinear'' = Inr vs
          \<and> length vs = length [(-5, 7), (1 / 2 :: real, 1 / 2 :: real)])"
proof -
  have h: "2 \<le> height profile22" "2 \<le> width profile22"
    "int (nrows raster22) = height profile22" "int (ncols raster22) = width profile22"
    "af_a (transform profile22) * af_e (transform profile22)
        - af_b (transform profile22) * af_d (transform profile22) \<noteq> 0"
    by (simp_all add: profile22_def raster22_def unit_affine_def)
  from values_from_raster_bilinear_in_bounds [OF h, of id "[(-5, 7), (1 / 2, 1 / 2)]"] h
  show ?thesis by blast
qed

text \<open>
  Claim C9 as stated fails. In the nearest mode nothing is clamped: on the 2 by 2 raster
  with the identity transform the point \<open>(5.5, 0.5)\<close> maps to column 5, and the lookup
  raises IndexError. In the bilinear mode the lower clamp bound is \<open>eps\<close>, not half of
  it: the coordinate \<open>0.75 eps\<close> lies in the interval the claim names and is moved.
\<close>

theorem values_from_raster_clamp_counterexample:
  "values_from_raster id [(11 / 2, 1 / 2)] raster22 profile22 ''nearest'' = Inl IndexError
   \<and> clamp_pixel 2 (3 / 4 * eps) = eps
   \<and> max (eps / 2) (min (2 - 1 - eps) (3 / 4 * eps)) = 3 / 4 * eps
   \<and> eps \<noteq> 3 / 4 * eps"
  by (simp add: values_from_raster_def affine_invert_def profile22_def raster22_def
      unit_affine_def nearest_at_def affine_apply_def raster_at_def np_axis_def
      clamp_pixel_def eps_def Let_def)

section \<open>Traversals and pruning\<close>

lemma those_Some_iff: "those xs = Some ys \<longleftrightarrow> xs = map Some ys"
  by (induction xs arbitrary: ys) (auto split: option.splits)

lemma those_map_Some: "those (map Some ys) = Some ys"
  by (simp add: those_Some_iff)

lemma preOrder_fuel_Suc_Some:
  assumes "preOrder_fuel (Suc k) s n = Some ns"
  shows "\<exists>ls. map (preOrder_fuel k s) (children (s ! n)) = map Some ls \<and> ns = n # concat ls"
  using assms by (auto simp: those_Some_iff split: option.splits)

lemma preOrder_fuel_parent_in:
  "preOrder_fuel k s r = Some ns \<Longrightarrow> m \<in> set ns \<Longrightarrow>
     m = r \<or> (\<exists>p \<in> set ns. m \<in> set (children (s ! p)))"
proof (induction k arbitrary: r ns)
  case 0
  then show ?case by simp
next
  case (Suc k)
  from preOrder_fuel_Suc_Some [OF Suc.prems(1)] obtain ls
    where ls: "map (preOrder_fuel k s) (children (s ! r)) = map Some ls" "ns = r # concat ls"
    by blast
  show ?case
  proof (cases "m = r")
    case True
    then show ?thesis by simp
  next
    case False
    with Suc.prems(2) ls(2) obtain l where l: "l \<in> set ls" "m \<in> set l" by auto
    then obtain i where i: "i < length ls" "l = ls ! i" by (auto simp: in_set_conv_nth)
    from ls(1) have len: "length (children (s ! r)) = length ls"
      by (metis length_map)
    from ls(1) i len have sub: "preOrder_fuel k s (children (s ! r) ! i) = Some l"
      by (metis nth_map)
    from Suc.IH [OF sub l(2)] show ?thesis
    proof
      assume "m = children (s ! r) ! i"
      with i len have "m \<in> set (children (s ! r))" by simp
      with ls(2) show ?thesis by auto
    next
      assume "\<exists>p\<in>set l. m \<in> set (children (s ! p))"
      with l(1) ls(2) show ?thesis by auto
    qed
  qed
qed

lemma remove_Some:
  assumes "parent (s ! l) = Some p" "l < length s" "p < length s" "p \<noteq> l"
  shows "remove s l = Inr (s[p := (s ! p)\<lparr>children := remove1 l (children (s ! p))\<rparr>,
                            l := (s ! l)\<lparr>parent := None\<rparr>])"
  using assms by (simp add: remove_def Let_def)


lemma prune_loop_effect:
  assumes "distinct ls"
    and "\<forall>l\<in>set ls. l < length s"
    and "\<forall>l\<in>set ls. short tol s l \<longrightarrow>
           (\<exists>p\<in>N. parent (s ! l) = Some p \<and> p < length s \<and> p \<notin> set ls)"
    and "\<forall>n\<in>N. distinct (children (s ! n))"
    and "\<forall>n\<in>N. \<forall>c\<in>set (children (s ! n)). c \<in> set ls \<longrightarrow> parent (s ! c) = Some n"
  shows "\<exists>s'. prune_loop tol ls s = Inr s' \<and> length s' = length s
           \<and> (\<forall>n. segment (s' ! n) = segment (s ! n))
           \<and> (\<forall>n. parent (s' ! n) =
                 (if n \<in> set ls \<and> short tol s n then None else parent (s ! n)))
           \<and> (\<forall>n\<in>N. children (s' ! n) =
                 filter (\<lambda>c. \<not> (c \<in> set ls \<and> short tol s c)) (children (s ! n)))
           \<and> (\<forall>n. n \<notin> N \<longrightarrow> children (s' ! n) = children (s ! n))"
  using assms
proof (induction ls arbitrary: s)
  case Nil
  then show ?case by simp
next
  case (Cons l ls)
  show ?case
  proof (cases "short tol s l")
    case False
    from Cons.prems have a: "distinct ls" "\<forall>l\<in>set ls. l < length s"
      "\<forall>l\<in>set ls. short tol s l \<longrightarrow>
           (\<exists>p\<in>N. parent (s ! l) = Some p \<and> p < length s \<and> p \<notin> set ls)"
      "\<forall>n\<in>N. distinct (children (s ! n))"
      "\<forall>n\<in>N. \<forall>c\<in>set (children (s ! n)). c \<in> set ls \<longrightarrow> parent (s ! c) = Some n"
      by auto
    from Cons.IH [OF a] obtain s' where s': "prune_loop tol ls s = Inr s'" "length s' = length s"
      "\<forall>n. segment (s' ! n) = segment (s ! n)"
      "\<forall>n. parent (s' ! n) =
                 (if n \<in> set ls \<and> short tol s n then None else parent (s ! n))"
      "\<forall>n\<in>N. children (s' ! n) =
                 filter (\<lambda>c. \<not> (c \<in> set ls \<and> short tol s c)) (children (s ! n))"
      "\<forall>n. n \<notin> N \<longrightarrow> children (s' ! n) = children (s ! n)"
      by blast
    have f: "filter (\<lambda>c. \<not> (c \<in> set ls \<and> short tol s c)) xs
           = filter (\<lambda>c. \<not> (c \<in> set (l # ls) \<and> short tol s c)) xs" for xs
      using False by (intro filter_cong) auto
    from False s' f show ?thesis by auto
  next
    case True
    with Cons.prems(3) obtain p where p: "p \<in> N" "parent (s ! l) = Some p" "p < length s"
      "p \<notin> set (l # ls)" by auto
    from Cons.prems(2) have l: "l < length s" by simp
    from p have pl: "p \<noteq> l" by auto
    define s1 where "s1 = s[p := (s ! p)\<lparr>children := remove1 l (children (s ! p))\<rparr>,
                            l := (s ! l)\<lparr>parent := None\<rparr>]"
    have rem: "remove s l = Inr s1"
      unfolding s1_def by (rule remove_Some [OF p(2) l p(3) pl])
    have len1: "length s1 = length s" by (simp add: s1_def)
    have nth1: "s1 ! n = (if n = l then (s ! l)\<lparr>parent := None\<rparr>
                 else if n = p then (s ! p)\<lparr>children := remove1 l (children (s ! p))\<rparr>
                 else s ! n)" for n
      using l p(3) pl by (simp add: s1_def)
    have seg1: "segment (s1 ! n) = segment (s ! n)" for n
      by (simp add: nth1)
    have par1: "parent (s1 ! n) = (if n = l then None else parent (s ! n))" for n
      by (simp add: nth1)
    have ch1: "children (s1 ! n) = (if n = p then remove1 l (children (s ! n)) else children (s ! n))"
      for n
      using pl by (simp add: nth1)
    have a1: "distinct ls" using Cons.prems(1) by simp
    have a2: "\<forall>l\<in>set ls. l < length s1" using Cons.prems(2) len1 by simp
    have a3: "\<forall>l'\<in>set ls. short tol s1 l' \<longrightarrow>
           (\<exists>p\<in>N. parent (s1 ! l') = Some p \<and> p < length s1 \<and> p \<notin> set ls)"
    proof (intro ballI impI)
      fix l' assume l': "l' \<in> set ls" and sh: "short tol s1 l'"
      from l' Cons.prems(1) have ne: "l' \<noteq> l" by auto
      from sh have "short tol s l'" by (simp add: seg1)
      with Cons.prems(3) l' obtain q where "q \<in> N" "parent (s ! l') = Some q" "q < length s"
        "q \<notin> set (l # ls)" by auto
      with ne len1 show "\<exists>p\<in>N. parent (s1 ! l') = Some p \<and> p < length s1 \<and> p \<notin> set ls"
        by (auto simp: par1)
    qed
    have a4: "\<forall>n\<in>N. distinct (children (s1 ! n))"
      using Cons.prems(4) by (simp add: ch1)
    have a5: "\<forall>n\<in>N. \<forall>c\<in>set (children (s1 ! n)). c \<in> set ls \<longrightarrow> parent (s1 ! c) = Some n"
    proof (intro ballI impI)
      fix n c assume n: "n \<in> N" and c: "c \<in> set (children (s1 ! n))" and cl: "c \<in> set ls"
      from c have "c \<in> set (children (s ! n))"
        using set_remove1_subset [of l "children (s ! n)"] by (auto simp: ch1 split: if_splits)
      with Cons.prems(5) n cl have "parent (s ! c) = Some n" by auto
      moreover from cl Cons.prems(1) have "c \<noteq> l" by auto
      ultimately show "parent (s1 ! c) = Some n" by (simp add: par1)
    qed
    from Cons.IH [OF a1 a2 a3 a4 a5] obtain s' where s': "prune_loop tol ls s1 = Inr s'"
      "length s' = length s1"
      "\<forall>n. segment (s' ! n) = segment (s1 ! n)"
      "\<forall>n. parent (s' ! n) =
                 (if n \<in> set ls \<and> short tol s1 n then None else parent (s1 ! n))"
      "\<forall>n\<in>N. children (s' ! n) =
                 filter (\<lambda>c. \<not> (c \<in> set ls \<and> short tol s1 c)) (children (s1 ! n))"
      "\<forall>n. n \<notin> N \<longrightarrow> children (s' ! n) = children (s1 ! n)"
      by blast
    have run: "prune_loop tol (l # ls) s = Inr s'"
      using True rem s'(1) by simp
    have c3: "\<forall>n. parent (s' ! n) =
                 (if n \<in> set (l # ls) \<and> short tol s n then None else parent (s ! n))"
      using s'(4) True by (auto simp: par1 seg1)
    have c4: "children (s' ! n) =
                 filter (\<lambda>c. \<not> (c \<in> set (l # ls) \<and> short tol s c)) (children (s ! n))"
      if n: "n \<in> N" for n
    proof (cases "n = p")
      case True
      from Cons.prems(4) p(1) have d: "distinct (children (s ! p))" by simp
      have "remove1 l (children (s ! p)) = filter (\<lambda>c. c \<noteq> l) (children (s ! p))"
        using d by (simp add: distinct_remove1_removeAll removeAll_filter_not_eq) metis
      with s'(5) n True \<open>short tol s l\<close> show ?thesis
        by (auto simp: ch1 seg1 intro!: filter_cong)
    next
      case False
      have "l \<notin> set (children (s ! n))"
      proof
        assume "l \<in> set (children (s ! n))"
        with Cons.prems(5) n have "parent (s ! l) = Some n" by simp
        with p(2) False show False by simp
      qed
      with s'(5) n False show ?thesis
        by (auto simp: ch1 seg1 intro!: filter_cong)
    qed
    have c5: "\<forall>n. n \<notin> N \<longrightarrow> children (s' ! n) = children (s ! n)"
      using s'(6) p(1) by (auto simp: ch1)
    from run s'(2) len1 s'(3) c3 c4 c5 show ?thesis by (simp add: seg1)
  qed
qed


lemma preOrder_fuel_hd:
  "preOrder_fuel k s r = Some ns \<Longrightarrow> \<exists>t. ns = r # t"
  by (cases k) (auto split: option.splits)

lemma traversals_heads:
  assumes "map (preOrder_fuel k s) cs = map Some ls"
  shows "set cs \<subseteq> set (concat ls)"
  using assms
proof (induction cs arbitrary: ls)
  case Nil
  then show ?case by simp
next
  case (Cons c cs)
  then obtain l ls' where ls: "ls = l # ls'" "preOrder_fuel k s c = Some l"
    "map (preOrder_fuel k s) cs = map Some ls'" by (cases ls) auto
  from preOrder_fuel_hd [OF ls(2)] have "c \<in> set l" by auto
  with Cons.IH [OF ls(3)] ls(1) show ?case by auto
qed

lemma traversals_distinct:
  assumes "map (preOrder_fuel k s) cs = map Some ls" and "distinct (concat ls)"
  shows "distinct cs"
  using assms
proof (induction cs arbitrary: ls)
  case Nil
  then show ?case by simp
next
  case (Cons c cs)
  then obtain l ls' where ls: "ls = l # ls'" "preOrder_fuel k s c = Some l"
    "map (preOrder_fuel k s) cs = map Some ls'" by (cases ls) auto
  from preOrder_fuel_hd [OF ls(2)] have c: "c \<in> set l" by auto
  from Cons.prems(2) ls(1) have d: "distinct (concat ls')" "set l \<inter> set (concat ls') = {}"
    by auto
  from traversals_heads [OF ls(3)] c d(2) have "c \<notin> set cs" by auto
  with Cons.IH [OF ls(3) d(1)] show ?case by simp
qed

lemma preOrder_fuel_children:
  "preOrder_fuel k s r = Some ns \<Longrightarrow> n \<in> set ns \<Longrightarrow> set (children (s ! n)) \<subseteq> set ns"
proof (induction k arbitrary: r ns)
  case 0
  then show ?case by simp
next
  case (Suc k)
  from preOrder_fuel_Suc_Some [OF Suc.prems(1)] obtain ls
    where ls: "map (preOrder_fuel k s) (children (s ! r)) = map Some ls" "ns = r # concat ls"
    by blast
  show ?case
  proof (cases "n = r")
    case True
    with traversals_heads [OF ls(1)] ls(2) show ?thesis by auto
  next
    case False
    with Suc.prems(2) ls(2) obtain l where l: "l \<in> set ls" "n \<in> set l" by auto
    then obtain i where i: "i < length ls" "l = ls ! i" by (auto simp: in_set_conv_nth)
    from ls(1) have len: "length (children (s ! r)) = length ls"
      by (metis length_map)
    from ls(1) i len have sub: "preOrder_fuel k s (children (s ! r) ! i) = Some l"
      by (metis nth_map)
    from Suc.IH [OF sub l(2)] l(1) ls(2) show ?thesis by auto
  qed
qed

lemma preOrder_fuel_distinct_children:
  "preOrder_fuel k s r = Some ns \<Longrightarrow> distinct ns \<Longrightarrow> n \<in> set ns \<Longrightarrow> distinct (children (s ! n))"
proof (induction k arbitrary: r ns)
  case 0
  then show ?case by simp
next
  case (Suc k)
  from preOrder_fuel_Suc_Some [OF Suc.prems(1)] obtain ls
    where ls: "map (preOrder_fuel k s) (children (s ! r)) = map Some ls" "ns = r # concat ls"
    by blast
  from Suc.prems(2) ls(2) have dc: "distinct (concat ls)" by simp
  show ?case
  proof (cases "n = r")
    case True
    with traversals_distinct [OF ls(1) dc] show ?thesis by simp
  next
    case False
    with Suc.prems(3) ls(2) obtain l where l: "l \<in> set ls" "n \<in> set l" by auto
    then obtain i where i: "i < length ls" "l = ls ! i" by (auto simp: in_set_conv_nth)
    from ls(1) have len: "length (children (s ! r)) = length ls"
      by (metis length_map)
    from ls(1) i len have sub: "preOrder_fuel k s (children (s ! r) ! i) = Some l"
      by (metis nth_map)
    from dc l(1) have "distinct l" by (auto simp: distinct_concat_iff)
    from Suc.IH [OF sub this l(2)] show ?thesis .
  qed
qed


lemma traversals_filter:
  assumes "map f cs = map Some ls"
    and "\<And>c l. c \<in> set cs \<Longrightarrow> f c = Some l \<Longrightarrow>
           (if keep c then g c = Some (filter keep l) else filter keep l = [])"
  shows "\<exists>ls'. map g (filter keep cs) = map Some ls' \<and> concat ls' = filter keep (concat ls)"
  using assms
proof (induction cs arbitrary: ls)
  case Nil
  then show ?case by simp
next
  case (Cons c cs)
  then obtain l ls0 where ls: "ls = l # ls0" "f c = Some l" "map f cs = map Some ls0"
    by (cases ls) auto
  from Cons.IH [OF ls(3)] Cons.prems(2) obtain ls' where
    ls': "map g (filter keep cs) = map Some ls'" "concat ls' = filter keep (concat ls0)"
    by auto
  from Cons.prems(2) [of c l] ls(2)
  have c: "if keep c then g c = Some (filter keep l) else filter keep l = []" by simp
  show ?case
  proof (cases "keep c")
    case True
    with c ls' ls(1) have "map g (filter keep (c # cs)) = map Some (filter keep l # ls')
        \<and> concat (filter keep l # ls') = filter keep (concat ls)" by simp
    then show ?thesis by blast
  next
    case False
    with c ls' ls(1) show ?thesis by auto
  qed
qed

lemma preOrder_fuel_filter:
  assumes "preOrder_fuel k s r = Some ns" and "keep r"
    and "\<forall>n\<in>set ns. keep n \<longrightarrow> children (s' ! n) = filter keep (children (s ! n))"
    and "\<forall>n\<in>set ns. \<not> keep n \<longrightarrow> children (s ! n) = []"
  shows "preOrder_fuel k s' r = Some (filter keep ns)"
  using assms
proof (induction k arbitrary: r ns)
  case 0
  then show ?case by simp
next
  case (Suc k)
  from preOrder_fuel_Suc_Some [OF Suc.prems(1)] obtain ls
    where ls: "map (preOrder_fuel k s) (children (s ! r)) = map Some ls" "ns = r # concat ls"
    by blast
  have sub: "if keep c then preOrder_fuel k s' c = Some (filter keep l) else filter keep l = []"
    if c: "c \<in> set (children (s ! r))" and l: "preOrder_fuel k s c = Some l" for c l
  proof -
    from c obtain i where i: "i < length (children (s ! r))" "c = children (s ! r) ! i"
      by (auto simp: in_set_conv_nth)
    from ls(1) have len: "length (children (s ! r)) = length ls" by (metis length_map)
    from ls(1) i len l have "l = ls ! i" by (metis nth_map option.inject)
    with i len have "l \<in> set ls" by simp
    with ls(2) have sub: "set l \<subseteq> set ns" by auto
    show ?thesis
    proof (cases "keep c")
      case True
      from Suc.IH [OF l True] Suc.prems(3,4) sub True show ?thesis by auto
    next
      case False
      from preOrder_fuel_hd [OF l] sub have "c \<in> set ns" by auto
      with Suc.prems(4) False have "children (s ! c) = []" by simp
      with l have "l = [c]" by (cases k) auto
      with False show ?thesis by simp
    qed
  qed
  from traversals_filter [of "preOrder_fuel k s" "children (s ! r)" ls keep "preOrder_fuel k s'",
      OF ls(1) sub]
  obtain ls' where ls': "map (preOrder_fuel k s') (filter keep (children (s ! r))) = map Some ls'"
    "concat ls' = filter keep (concat ls)" by blast
  from Suc.prems(2,3) ls(2) have "children (s' ! r) = filter keep (children (s ! r))" by simp
  with ls' Suc.prems(2) ls(2) show ?case by (simp add: those_map_Some)
qed

lemma prune_tree:
  assumes ok: "tree_ok s r" and root: "children (s ! r) \<noteq> [] \<or> \<not> short tol s r"
  shows "\<exists>ns s'. preOrder s r = Some ns \<and> prune s r tol = Inr s' \<and> length s' = length s
           \<and> (\<forall>n. segment (s' ! n) = segment (s ! n))
           \<and> (\<forall>n. parent (s' ! n) =
                 (if n \<in> set ns \<and> children (s ! n) = [] \<and> short tol s n then None
                  else parent (s ! n)))
           \<and> (\<forall>n\<in>set ns. children (s' ! n) =
                 filter (\<lambda>c. \<not> (children (s ! c) = [] \<and> short tol s c)) (children (s ! n)))
           \<and> (\<forall>n. n \<notin> set ns \<longrightarrow> children (s' ! n) = children (s ! n))
           \<and> preOrder s' r =
                 Some (filter (\<lambda>n. \<not> (children (s ! n) = [] \<and> short tol s n)) ns)"
proof -
  from ok obtain ns where ns: "preOrder s r = Some ns" "distinct ns" "\<forall>n\<in>set ns. n < length s"
    "parent (s ! r) = None" "\<forall>n\<in>set ns. \<forall>c\<in>set (children (s ! n)). parent (s ! c) = Some n"
    by (auto simp: tree_ok_def split: option.splits)
  have pf: "preOrder_fuel (length s) s r = Some ns" using ns(1) by (simp add: preOrder_def)
  define ls where "ls = filter (\<lambda>m. children (s ! m) = []) ns"
  have lf: "leaf_nodes s r = Some ls" by (simp add: leaf_nodes_def ns(1) ls_def)
  have a1: "distinct ls" using ns(2) by (simp add: ls_def)
  have a2: "\<forall>l\<in>set ls. l < length s" using ns(3) by (simp add: ls_def)
  have a3: "\<forall>l\<in>set ls. short tol s l \<longrightarrow>
           (\<exists>p\<in>set ns. parent (s ! l) = Some p \<and> p < length s \<and> p \<notin> set ls)"
  proof (intro ballI impI)
    fix l assume l: "l \<in> set ls" and sh: "short tol s l"
    then have ln: "l \<in> set ns" and lc: "children (s ! l) = []" by (simp_all add: ls_def)
    from root sh lc have "l \<noteq> r" by auto
    with preOrder_fuel_parent_in [OF pf ln] obtain p where
      p: "p \<in> set ns" "l \<in> set (children (s ! p))" by auto
    with ns(5) have "parent (s ! l) = Some p" by simp
    moreover from p have "p \<notin> set ls" by (auto simp: ls_def)
    ultimately show "\<exists>p\<in>set ns. parent (s ! l) = Some p \<and> p < length s \<and> p \<notin> set ls"
      using p(1) ns(3) by auto
  qed
  have a4: "\<forall>n\<in>set ns. distinct (children (s ! n))"
    using preOrder_fuel_distinct_children [OF pf ns(2)] by simp
  have a5: "\<forall>n\<in>set ns. \<forall>c\<in>set (children (s ! n)). c \<in> set ls \<longrightarrow> parent (s ! c) = Some n"
    using ns(5) by simp
  from prune_loop_effect [OF a1 a2 a3 a4 a5] obtain s' where
    s': "prune_loop tol ls s = Inr s'" "length s' = length s"
      "\<forall>n. segment (s' ! n) = segment (s ! n)"
      "\<forall>n. parent (s' ! n) = (if n \<in> set ls \<and> short tol s n then None else parent (s ! n))"
      "\<forall>n\<in>set ns. children (s' ! n) =
                 filter (\<lambda>c. \<not> (c \<in> set ls \<and> short tol s c)) (children (s ! n))"
      "\<forall>n. n \<notin> set ns \<longrightarrow> children (s' ! n) = children (s ! n)"
    by blast
  have run: "prune s r tol = Inr s'" by (simp add: prune_def lf s'(1))
  have c3: "\<forall>n. parent (s' ! n) =
                 (if n \<in> set ns \<and> children (s ! n) = [] \<and> short tol s n then None
                  else parent (s ! n))"
    using s'(4) by (simp add: ls_def)
  have c4: "children (s' ! n) =
                 filter (\<lambda>c. \<not> (children (s ! c) = [] \<and> short tol s c)) (children (s ! n))"
    if n: "n \<in> set ns" for n
  proof -
    from preOrder_fuel_children [OF pf n] have "set (children (s ! n)) \<subseteq> set ns" .
    then have "filter (\<lambda>c. \<not> (c \<in> set ls \<and> short tol s c)) (children (s ! n))
        = filter (\<lambda>c. \<not> (children (s ! c) = [] \<and> short tol s c)) (children (s ! n))"
      by (intro filter_cong) (auto simp: ls_def)
    with s'(5) n show ?thesis by simp
  qed
  define keep where "keep = (\<lambda>n. \<not> (children (s ! n) = [] \<and> short tol s n))"
  have kr: "keep r" using root by (auto simp: keep_def)
  have k1: "\<forall>n\<in>set ns. keep n \<longrightarrow> children (s' ! n) = filter keep (children (s ! n))"
    using c4 by (simp add: keep_def)
  have k2: "\<forall>n\<in>set ns. \<not> keep n \<longrightarrow> children (s ! n) = []"
    by (simp add: keep_def)
  from preOrder_fuel_filter [OF pf kr k1 k2]
  have c6: "preOrder s' r = Some (filter (\<lambda>n. \<not> (children (s ! n) = [] \<and> short tol s n)) ns)"
    by (simp add: preOrder_def s'(2) keep_def)
  from ns(1) run s'(2,3) c3 c4 s'(6) c6 show ?thesis by blast
qed


section \<open>Evaluating distances\<close>

lemma sqrt_less_iff_sq: "0 \<le> y \<Longrightarrow> sqrt x < y \<longleftrightarrow> x < y\<^sup>2"
  by (metis real_sqrt_less_iff real_sqrt_abs abs_of_nonneg)

lemma sqrt_le_iff_sq: "0 \<le> y \<Longrightarrow> sqrt x \<le> y \<longleftrightarrow> x \<le> y\<^sup>2"
  by (metis real_sqrt_le_iff real_sqrt_abs abs_of_nonneg)

lemma distance_nonneg: "0 \<le> distance p q"
  by (simp add: distance_def)

lemma distance_le_iff:
  "distance p q \<le> r \<longleftrightarrow> 0 \<le> r \<and> (fst p - fst q)\<^sup>2 + (snd p - snd q)\<^sup>2 \<le> r\<^sup>2"
proof (cases "0 \<le> r")
  case True
  then show ?thesis by (simp add: distance_def sqrt_le_iff_sq)
next
  case False
  with distance_nonneg [of p q] show ?thesis by auto
qed

lemma distance_less_iff:
  "distance p q < r \<longleftrightarrow> 0 < r \<and> (fst p - fst q)\<^sup>2 + (snd p - snd q)\<^sup>2 < r\<^sup>2"
proof (cases "0 < r")
  case True
  then show ?thesis by (simp add: distance_def sqrt_less_iff_sq)
next
  case False
  with distance_nonneg [of p q] show ?thesis by auto
qed

lemma query_ball_point_code:
  "query_ball_point coords x r =
     filter (\<lambda>c. 0 \<le> r \<and> (fst (coords ! c) - fst x)\<^sup>2 + (snd (coords ! c) - snd x)\<^sup>2 \<le> r\<^sup>2)
       [0..<length coords]"
  by (simp add: query_ball_point_def distance_le_iff)

lemma ls_length_two: "ls_length [p, q] = distance p q"
  by simp

lemma upt_0_2: "[0..<2] = [0, 1]"
  by (simp add: upt_rec)

section \<open>The example forest\<close>

lemma make_global_tree_AB: "make_global_tree [segA, segB] (1 / 100) = (storeAB, [1])"
  by (simp add: make_global_tree_def attach_def query_ball_point_code segA_def segB_def
      storeAB_def Tree_def upt_0_2 power2_eq_square addChild_def Let_def)

lemma short_A: "ls_length segA < 2"
  unfolding segA_def ls_length_two distance_less_iff by (simp add: power2_eq_square)

lemma short_B: "ls_length segB < 2"
  unfolding segB_def ls_length_two distance_less_iff by (simp add: power2_eq_square)

lemma preOrder_storeAB: "preOrder storeAB (Suc 0) = Some [Suc 0, 0]"
  by (simp add: preOrder_def storeAB_def numeral_2_eq_2)

lemma prune_storeAB: "prune storeAB 1 2 = Inr storeB"
  using short_A
  by (simp add: prune_def leaf_nodes_def preOrder_def storeAB_def storeB_def numeral_2_eq_2
      remove_def)

lemma preOrder_storeB: "preOrder storeB 1 = Some [1]"
  by (simp add: preOrder_def storeB_def numeral_2_eq_2)

lemma tree_ok_storeAB: "tree_ok storeAB 1"
  by (simp add: tree_ok_def preOrder_storeAB) (simp add: storeAB_def)

text \<open>
  Claim C8, as amended. Forest construction on \<open>A = [(0,0),(1,1)]\<close>,
  \<open>B = [(1,1),(2,2)]\<close> with \<open>tol = 0.01\<close> yields exactly one tree, rooted at \<open>B\<close> (node 1)
  with \<open>A\<close> (node 0) as its child. Pruning that tree with \<open>prune_tol = 2.0\<close> removes the
  leaf \<open>A\<close> only: \<open>B\<close> is not a leaf when the leaves are collected, and it stays, the
  childless root of the one tree of the forest. In general, on a well-shaped tree whose
  root is not itself a short leaf, \<open>prune\<close> returns, removes exactly the nodes that are
  leaves of the tree with a segment shorter than \<open>prune_tol\<close>, and removes no other node:
  the traversal of the pruned tree is the old one without those leaves, their
  back-references are cleared, and no segment changes.
\<close>

theorem prune_removes_short_leaves:
  assumes "tree_ok s r" and "children (s ! r) \<noteq> [] \<or> \<not> short tol s r"
  shows "make_global_tree [segA, segB] (1 / 100) = (storeAB, [1])
       \<and> prune storeAB 1 2 = Inr storeB
       \<and> preOrder storeB 1 = Some [1]
       \<and> (\<exists>ns s'. preOrder s r = Some ns \<and> prune s r tol = Inr s' \<and> length s' = length s
           \<and> (\<forall>n. segment (s' ! n) = segment (s ! n))
           \<and> (\<forall>n. parent (s' ! n) =
                 (if n \<in> set ns \<and> children (s ! n) = [] \<and> short tol s n then None
                  else parent (s ! n)))
           \<and> (\<forall>n\<in>set ns. children (s' ! n) =
                 filter (\<lambda>c. \<not> (children (s ! c) = [] \<and> short tol s c)) (children (s ! n)))
           \<and> (\<forall>n. n \<notin> set ns \<longrightarrow> children (s' ! n) = children (s ! n))
           \<and> preOrder s' r =
                 Some (filter (\<lambda>n. \<not> (children (s ! n) = [] \<and> short tol s n)) ns))"
  using make_global_tree_AB prune_storeAB preOrder_storeB prune_tree [OF assms] by blast

theorem prune_removes_short_leaves_witness:
  "preOrder storeAB 1 = Some [1, 0] \<and> children (storeAB ! 1) = [0]
   \<and> (\<exists>s'. prune storeAB 1 2 = Inr s' \<and> preOrder s' 1 = Some [1]
          \<and> parent (s' ! 0) = None \<and> segment (s' ! 0) = segA)"
proof -
  have h: "children (storeAB ! 1) \<noteq> [] \<or> \<not> short 2 storeAB 1"
    by (simp add: storeAB_def)
  from prune_removes_short_leaves [OF tree_ok_storeAB h] obtain ns s' where
    r: "preOrder storeAB 1 = Some ns" "prune storeAB 1 2 = Inr s'"
      "\<forall>n. segment (s' ! n) = segment (storeAB ! n)"
      "\<forall>n. parent (s' ! n) =
                 (if n \<in> set ns \<and> children (storeAB ! n) = [] \<and> short 2 storeAB n then None
                  else parent (storeAB ! n))"
      "preOrder s' 1 =
         Some (filter (\<lambda>n. \<not> (children (storeAB ! n) = [] \<and> short 2 storeAB n)) ns)"
    by blast
  from r(1) have ns: "ns = [1, 0]" by (simp add: preOrder_storeAB)
  have sh: "short 2 storeAB 0" using short_A by (simp add: storeAB_def)
  have c: "children (storeAB ! 1) = [0]" "children (storeAB ! 0) = []"
    by (simp_all add: storeAB_def)
  from r(5) sh c have "preOrder s' 1 = Some [1]" by (simp add: ns)
  moreover from r(4) sh c have "parent (s' ! 0) = None" by (simp add: ns)
  moreover from r(3) have "segment (s' ! 0) = segA" by (simp add: storeAB_def)
  ultimately show ?thesis using r(1,2) c(1) by (auto simp: ns)
qed

text \<open>
  Claim C8 as stated fails on its own example: after pruning at \<open>2.0\<close> the tree rooted at
  \<open>B\<close> still holds \<open>B\<close>, with its segment, so the forest is not empty and only one of the
  two nodes was removed.
\<close>

theorem prune_example_counterexample:
  "make_global_tree [segA, segB] (1 / 100) = (storeAB, [1])
   \<and> prune storeAB 1 2 = Inr storeB
   \<and> preOrder storeB 1 = Some [1]
   \<and> segment (storeB ! 1) = segB
   \<and> ls_length segB < 2"
  using make_global_tree_AB prune_storeAB preOrder_storeB short_B
  by (simp add: storeB_def)

section \<open>Merging at a short root\<close>

lemma short_root: "ls_length [(0, 0), (1 / 20, 0)] < 1 / 10"
  unfolding ls_length_two distance_less_iff by (simp add: power2_eq_square)

lemma preOrder_short_root_store: "preOrder short_root_store 0 = Some [0, Suc 0]"
  by (simp add: preOrder_def short_root_store_def numeral_2_eq_2)

text \<open>
  Claim C5, evaluated at the failing input. The tree has two nodes and is consistent (the
  child reach ends at \<open>(0,0)\<close>, where the root reach starts), and the root reach is
  shorter than the merge tolerance \<open>0.1\<close>. \<open>merge\<close> reaches \<open>node.parent.segment\<close> at
  the root, whose parent is \<open>None\<close>, and raises AttributeError; so does \<open>cleanup\<close>.
\<close>

theorem merge_short_root_raises:
  "preOrder short_root_store 0 = Some [0, 1]
   \<and> parent (short_root_store ! 0) = None \<and> parent (short_root_store ! 1) = Some 0
   \<and> last (segment (short_root_store ! 1)) = hd (segment (short_root_store ! 0))
   \<and> merge short_root_store 0 (1 / 10) = Inl AttributeError
   \<and> cleanup (\<lambda>l t. l) short_root_store [0] None (Some 10) (Some (1 / 10)) = Inl AttributeError"
proof -
  have t: "preOrder short_root_store 0 = Some [0, 1]"
    "parent (short_root_store ! 0) = None" "parent (short_root_store ! 1) = Some 0"
    by (simp_all add: preOrder_short_root_store) (simp_all add: short_root_store_def)
  have c: "last (segment (short_root_store ! 1)) = hd (segment (short_root_store ! 0))"
    by (simp add: short_root_store_def)
  have m: "merge short_root_store 0 (1 / 10) = Inl AttributeError"
    using short_root
    by (simp add: merge_def preOrder_short_root_store merge_node_def)
       (simp add: short_root_store_def)
  have "cleanup (\<lambda>l t. l) short_root_store [0] None (Some 10) (Some (1 / 10)) = Inl AttributeError"
    by (simp add: cleanup_def merge_prune_tree_def m)
  with t c m show ?thesis by blast
qed

section \<open>Forest construction on a short segment\<close>

text \<open>
  Claim C4, evaluated at the failing input: the single segment \<open>[(0,0),(0.05,0)]\<close> with
  \<open>tol = 0.1\<close>. No other segment exists, yet the query around its end returns its own
  start; the node is added as a child of itself and the forest returned is empty.
\<close>

theorem make_global_tree_self_child:
  "make_global_tree [[(0, 0), (1 / 20, 0)]] (1 / 10)
     = ([\<lparr>segment = [(0, 0), (1 / 20, 0)], parent = Some 0, children = [0]\<rparr>], [])"
  by (simp add: make_global_tree_def attach_def query_ball_point_code Tree_def
      power2_eq_square addChild_def Let_def)

section \<open>The pipeline entry point\<close>




section \<open>Phase 1: moving boundary endpoints\<close>

lemma argmin_from_least:
  assumes "length pre = i" "best < i" "pre ! best = v" "\<forall>d\<in>set pre. v \<le> d"
  shows "argmin_from best v i xs < length (pre @ xs)
       \<and> (\<forall>d\<in>set (pre @ xs). (pre @ xs) ! argmin_from best v i xs \<le> d)"
  using assms
proof (induction xs arbitrary: best v i pre)
  case Nil
  then show ?case by simp
next
  case (Cons x xs)
  show ?case
  proof (cases "x < v")
    case True
    have "argmin_from i x (Suc i) xs < length ((pre @ [x]) @ xs)
       \<and> (\<forall>d\<in>set ((pre @ [x]) @ xs). ((pre @ [x]) @ xs) ! argmin_from i x (Suc i) xs \<le> d)"
    proof (rule Cons.IH)
      show "length (pre @ [x]) = Suc i" using Cons.prems(1) by simp
      show "i < Suc i" by simp
      show "(pre @ [x]) ! i = x" using Cons.prems(1) by (simp add: nth_append)
      show "\<forall>d\<in>set (pre @ [x]). x \<le> d" using Cons.prems(4) True by auto
    qed
    with True show ?thesis by simp
  next
    case False
    have "argmin_from best v (Suc i) xs < length ((pre @ [x]) @ xs)
       \<and> (\<forall>d\<in>set ((pre @ [x]) @ xs). ((pre @ [x]) @ xs) ! argmin_from best v (Suc i) xs \<le> d)"
    proof (rule Cons.IH)
      show "length (pre @ [x]) = Suc i" using Cons.prems(1) by simp
      show "best < Suc i" using Cons.prems(2) by simp
      show "(pre @ [x]) ! best = v" using Cons.prems(1,2,3) by (simp add: nth_append)
      show "\<forall>d\<in>set (pre @ [x]). v \<le> d" using Cons.prems(4) False by auto
    qed
    with False show ?thesis by simp
  qed
qed

lemma argmin_least:
  assumes "ds \<noteq> []"
  shows "argmin ds < length ds" and "\<forall>d\<in>set ds. ds ! argmin ds \<le> d"
proof -
  from assms obtain x ys where ds: "ds = x # ys" by (cases ds) auto
  from argmin_from_least [of "[x]" 1 0 x ys]
  have "argmin_from 0 x 1 ys < length ([x] @ ys)
       \<and> (\<forall>d\<in>set ([x] @ ys). ([x] @ ys) ! argmin_from 0 x 1 ys \<le> d)" by simp
  then show "argmin ds < length ds" and "\<forall>d\<in>set ds. ds ! argmin ds \<le> d"
    by (simp_all add: ds argmin_def)
qed

lemma kd_query_nearest:
  assumes "coords \<noteq> []"
  shows "snd (kd_query coords x) < length coords"
    and "fst (kd_query coords x) = distance (coords ! snd (kd_query coords x)) x"
    and "\<forall>c\<in>set coords. fst (kd_query coords x) \<le> distance c x"
proof -
  let ?ds = "map (\<lambda>c. distance c x) coords"
  from assms have ne: "?ds \<noteq> []" by simp
  note a = argmin_least [OF ne]
  from a(1) show i: "snd (kd_query coords x) < length coords"
    by (simp add: kd_query_def Let_def)
  from a(1) show "fst (kd_query coords x) = distance (coords ! snd (kd_query coords x)) x"
    by (simp add: kd_query_def Let_def)
  from a(2) show "\<forall>c\<in>set coords. fst (kd_query coords x) \<le> distance c x"
    by (simp add: kd_query_def Let_def)
qed

lemma those_map_option:
  "those (map (\<lambda>x. map_option f (g x)) xs) = map_option (map f) (those (map g xs))"
  by (induction xs) (auto split: option.splits simp: option.map_comp comp_def)

lemma move_endpoints_effect:
  assumes "2 \<le> length seg"
  shows "length (move_endpoints coords tol seg) = length seg"
    and "hd (move_endpoints coords tol seg) =
           (if fst (kd_query coords (hd seg)) < tol then coords ! snd (kd_query coords (hd seg))
            else hd seg)"
    and "last (move_endpoints coords tol seg) =
           (if fst (kd_query coords (last seg)) < tol then coords ! snd (kd_query coords (last seg))
            else last seg)"
    and "\<forall>i. 0 < i \<and> i < length seg - 1 \<longrightarrow> move_endpoints coords tol seg ! i = seg ! i"
proof -
  from assms obtain a b cs where seg: "seg = a # b # cs" 
    by (cases seg; cases "tl seg") auto
  show "length (move_endpoints coords tol seg) = length seg"
    by (simp add: move_endpoints_def Let_def)
  show "hd (move_endpoints coords tol seg) =
           (if fst (kd_query coords (hd seg)) < tol then coords ! snd (kd_query coords (hd seg))
            else hd seg)"
    by (auto simp: move_endpoints_def Let_def seg hd_conv_nth min_def)
  show "last (move_endpoints coords tol seg) =
           (if fst (kd_query coords (last seg)) < tol then coords ! snd (kd_query coords (last seg))
            else last seg)"
    using assms
    by (auto simp: move_endpoints_def Let_def min_def last_list_update seg)
  show "\<forall>i. 0 < i \<and> i < length seg - 1 \<longrightarrow> move_endpoints coords tol seg ! i = seg ! i"
    by (auto simp: move_endpoints_def Let_def nth_list_update)
qed


lemma river_endpoints_nodes:
  assumes "those (map (preOrder s) rivers) = Some nss"
  shows "river_endpoints s rivers =
     Inr (map (\<lambda>n. last (segment (s ! n))) (concat nss)
          @ map (\<lambda>n. hd (segment (s ! n))) (filter (\<lambda>n. children (s ! n) = []) (concat nss)))"
proof -
  have d: "those (map (dfs s) rivers) = Some (map (map (\<lambda>m. segment (s ! m))) nss)"
    unfolding dfs_def those_map_option assms by simp
  have "those (map (leaf_nodes s) rivers) = Some (map (filter (\<lambda>m. children (s ! m) = [])) nss)"
    unfolding leaf_nodes_def those_map_option assms by simp
  then have l: "those (map (leaves s) rivers)
      = Some (map (map (\<lambda>m. segment (s ! m))) (map (filter (\<lambda>m. children (s ! m) = [])) nss))"
    unfolding leaves_def those_map_option by simp
  show ?thesis
    unfolding river_endpoints_def d l
    by (simp add: map_concat filter_concat comp_def)
qed

lemma traversals_nonempty:
  assumes "those (map (preOrder s) rivers) = Some nss" and "rivers \<noteq> []"
  shows "concat nss \<noteq> []"
proof -
  from assms(1) have m: "map (preOrder s) rivers = map Some nss" by (simp add: those_Some_iff)
  from assms(2) obtain r rs where r: "rivers = r # rs" by (cases rivers) auto
  with m obtain ns nss' where n: "nss = ns # nss'" "preOrder s r = Some ns" by (cases nss) auto
  from preOrder_fuel_hd [of "length s" s r ns] n(2) obtain t where "ns = r # t"
    by (auto simp: preOrder_def)
  with n(1) show ?thesis by simp
qed

lemma snap_polygon_endpoints_general:
  assumes tr: "those (map (preOrder s) rivers) = Some nss" and ne: "rivers \<noteq> []"
    and two: "\<forall>seg\<in>set (segments h). 2 \<le> length seg"
  shows "\<exists>coords h'.
       coords = map (\<lambda>n. last (segment (s ! n))) (concat nss)
                @ map (\<lambda>n. hd (segment (s ! n)))
                    (filter (\<lambda>n. children (s ! n) = []) (concat nss))
     \<and> river_endpoints s rivers = Inr coords
     \<and> snap_polygon_endpoints h s rivers tol = Inr h'
     \<and> boundaries h' = boundaries h \<and> intersections h' = intersections h
     \<and> length (segments h') = length (segments h)
     \<and> (\<forall>k<length (segments h).
          length (segments h' ! k) = length (segments h ! k)
        \<and> hd (segments h' ! k) =
            (if fst (kd_query coords (hd (segments h ! k))) < tol
             then coords ! snd (kd_query coords (hd (segments h ! k)))
             else hd (segments h ! k))
        \<and> last (segments h' ! k) =
            (if fst (kd_query coords (last (segments h ! k))) < tol
             then coords ! snd (kd_query coords (last (segments h ! k)))
             else last (segments h ! k))
        \<and> (\<forall>i. 0 < i \<and> i < length (segments h ! k) - 1
              \<longrightarrow> segments h' ! k ! i = segments h ! k ! i))
     \<and> (\<forall>x. snd (kd_query coords x) < length coords
            \<and> fst (kd_query coords x) = distance (coords ! snd (kd_query coords x)) x
            \<and> (\<forall>c\<in>set coords. fst (kd_query coords x) \<le> distance c x))"
proof -
  define coords where "coords = map (\<lambda>n. last (segment (s ! n))) (concat nss)
                @ map (\<lambda>n. hd (segment (s ! n)))
                    (filter (\<lambda>n. children (s ! n) = []) (concat nss))"
  have re: "river_endpoints s rivers = Inr coords"
    unfolding coords_def by (rule river_endpoints_nodes [OF tr])
  have cne: "coords \<noteq> []"
    using traversals_nonempty [OF tr ne] by (simp add: coords_def)
  define h' where "h' = h\<lparr>segments := map (move_endpoints coords tol) (segments h)\<rparr>"
  have run: "snap_polygon_endpoints h s rivers tol = Inr h'"
    by (simp add: snap_polygon_endpoints_def re cne h'_def)
  have segs: "length (segments h' ! k) = length (segments h ! k)
        \<and> hd (segments h' ! k) =
            (if fst (kd_query coords (hd (segments h ! k))) < tol
             then coords ! snd (kd_query coords (hd (segments h ! k)))
             else hd (segments h ! k))
        \<and> last (segments h' ! k) =
            (if fst (kd_query coords (last (segments h ! k))) < tol
             then coords ! snd (kd_query coords (last (segments h ! k)))
             else last (segments h ! k))
        \<and> (\<forall>i. 0 < i \<and> i < length (segments h ! k) - 1
              \<longrightarrow> segments h' ! k ! i = segments h ! k ! i)"
    if k: "k < length (segments h)" for k
  proof -
    from k two have t: "2 \<le> length (segments h ! k)" by simp
    from k have e: "segments h' ! k = move_endpoints coords tol (segments h ! k)"
      by (simp add: h'_def)
    from move_endpoints_effect [OF t, of coords tol] show ?thesis
      unfolding e by simp
  qed
  have q: "snd (kd_query coords x) < length coords
            \<and> fst (kd_query coords x) = distance (coords ! snd (kd_query coords x)) x
            \<and> (\<forall>c\<in>set coords. fst (kd_query coords x) \<le> distance c x)" for x
    using kd_query_nearest [OF cne, of x] by simp
  have b: "boundaries h' = boundaries h" "intersections h' = intersections h"
    "length (segments h') = length (segments h)" by (simp_all add: h'_def)
  show ?thesis
    apply (rule exI [of _ coords], rule exI [of _ h'])
    using coords_def re run b segs q by blast
qed

lemma kdq0: "kd_query [(2, 2), (1, 1), (0, 0)] (1, 101 / 100) = (distance (1, 1) (1, 101 / 100), 1)"
  by (simp add: kd_query_def argmin_def distance_def power2_eq_square)

lemma kdq1: "kd_query [(2, 2), (1, 1), (0, 0)] (5, 5) = (distance (2, 2) (5, 5), 0)"
  by (simp add: kd_query_def argmin_def distance_def power2_eq_square)

lemma near0: "distance (1, 1) (1, 101 / 100) < 1 / 10"
  unfolding distance_less_iff by (simp add: power2_eq_square)

lemma far1: "\<not> distance (2, 2) (5, 5) < 1 / 10"
  unfolding distance_less_iff by (simp add: power2_eq_square)

lemma re_AB: "river_endpoints storeAB [Suc 0] = Inr [(2, 2), (1, 1), (0, 0)]"
  by (simp add: river_endpoints_def dfs_def leaves_def leaf_nodes_def preOrder_storeAB)
     (simp add: storeAB_def segA_def segB_def)

lemma snap_polygon_endpoints_hX:
  "snap_polygon_endpoints hX storeAB [1] (1 / 10) = Inr (hX\<lparr>segments := [[(1, 1), (5, 5)]]\<rparr>)"
  using near0 far1
  by (simp add: snap_polygon_endpoints_def re_AB hX_def move_endpoints_def kdq0 kdq1 min_def)

text \<open>
  Claim C2, as amended. In Phase 1 the spatial index is built over the last coordinate of
  every node of every river tree (\<open>dfs()\<close> yields the segment of every node, the roots
  and all others) followed by the first coordinate of every leaf. The query returns a
  nearest indexed coordinate. For every pooled boundary segment, each of its two endpoints
  whose nearest match lies at a distance below \<open>tol\<close> (the \<open>tol_triples\<close> that \<open>snap\<close>
  passes) is replaced by the matched river coordinate; the other coordinates of the
  segment, the other endpoint otherwise, and the components stay as they are.
\<close>

theorem snap_polygon_endpoints_index:
  assumes "those (map (preOrder s) rivers) = Some nss" and "rivers \<noteq> []"
    and "\<forall>seg\<in>set (segments h). 2 \<le> length seg"
  shows "\<exists>coords h'.
       coords = map (\<lambda>n. last (segment (s ! n))) (concat nss)
                @ map (\<lambda>n. hd (segment (s ! n)))
                    (filter (\<lambda>n. children (s ! n) = []) (concat nss))
     \<and> river_endpoints s rivers = Inr coords
     \<and> snap_polygon_endpoints h s rivers tol = Inr h'
     \<and> boundaries h' = boundaries h \<and> intersections h' = intersections h
     \<and> length (segments h') = length (segments h)
     \<and> (\<forall>k<length (segments h).
          length (segments h' ! k) = length (segments h ! k)
        \<and> hd (segments h' ! k) =
            (if fst (kd_query coords (hd (segments h ! k))) < tol
             then coords ! snd (kd_query coords (hd (segments h ! k)))
             else hd (segments h ! k))
        \<and> last (segments h' ! k) =
            (if fst (kd_query coords (last (segments h ! k))) < tol
             then coords ! snd (kd_query coords (last (segments h ! k)))
             else last (segments h ! k))
        \<and> (\<forall>i. 0 < i \<and> i < length (segments h ! k) - 1
              \<longrightarrow> segments h' ! k ! i = segments h ! k ! i))
     \<and> (\<forall>x. snd (kd_query coords x) < length coords
            \<and> fst (kd_query coords x) = distance (coords ! snd (kd_query coords x)) x
            \<and> (\<forall>c\<in>set coords. fst (kd_query coords x) \<le> distance c x))"
  using snap_polygon_endpoints_general [OF assms] .

theorem snap_polygon_endpoints_index_witness:
  "those (map (preOrder storeAB) [1]) = Some [[1, 0]]
   \<and> length (segments hX ! 0) = 2
   \<and> (\<exists>h'. snap_polygon_endpoints hX storeAB [1] (1 / 10) = Inr h'
          \<and> hd (segments h' ! 0) = (1, 1) \<and> last (segments h' ! 0) = (5, 5))"
proof -
  have t: "those (map (preOrder storeAB) [1]) = Some [[1, 0]]"
    by (simp add: preOrder_storeAB)
  have n: "[1] \<noteq> ([] :: nat list)" by simp
  have l: "\<forall>seg\<in>set (segments hX). 2 \<le> length seg" by (simp add: hX_def)
  from snap_polygon_endpoints_index [OF t n l, of "1 / 10"] obtain coords h' where
    r: "coords = map (\<lambda>n. last (segment (storeAB ! n))) (concat [[1, 0]])
                @ map (\<lambda>n. hd (segment (storeAB ! n)))
                    (filter (\<lambda>n. children (storeAB ! n) = []) (concat [[1, 0]]))"
      "snap_polygon_endpoints hX storeAB [1] (1 / 10) = Inr h'"
      "\<forall>k<length (segments hX).
          hd (segments h' ! k) =
            (if fst (kd_query coords (hd (segments hX ! k))) < 1 / 10
             then coords ! snd (kd_query coords (hd (segments hX ! k)))
             else hd (segments hX ! k))
        \<and> last (segments h' ! k) =
            (if fst (kd_query coords (last (segments hX ! k))) < 1 / 10
             then coords ! snd (kd_query coords (last (segments hX ! k)))
             else last (segments hX ! k))"
    by blast
  from r(1) have c: "coords = [(2, 2), (1, 1), (0, 0)]"
    by (simp add: storeAB_def segA_def segB_def)
  have s0: "segments hX ! 0 = [(1, 101 / 100), (5, 5)]" "0 < length (segments hX)"
    by (simp_all add: hX_def)
  from r(3) s0(2) have
    "hd (segments h' ! 0) =
            (if fst (kd_query coords (hd (segments hX ! 0))) < 1 / 10
             then coords ! snd (kd_query coords (hd (segments hX ! 0)))
             else hd (segments hX ! 0))"
    "last (segments h' ! 0) =
            (if fst (kd_query coords (last (segments hX ! 0))) < 1 / 10
             then coords ! snd (kd_query coords (last (segments hX ! 0)))
             else last (segments hX ! 0))"
    by blast+
  with near0 far1 have "hd (segments h' ! 0) = (1, 1)" "last (segments h' ! 0) = (5, 5)"
    by (simp_all add: c s0(1) kdq0 kdq1)
  with t r(2) s0(1) show ?thesis by simp
qed

text \<open>
  Claim C2 as stated fails on the example forest (root \<open>B\<close> with the leaf \<open>A\<close>). The
  outlet coordinate, the last of the root, is \<open>(2,2)\<close> and the only leaf inlet is
  \<open>(0,0)\<close>, but the index also holds \<open>(1,1)\<close>, the last coordinate of the non-root node
  \<open>A\<close>; the boundary endpoint \<open>(1, 1.01)\<close> is moved onto it with \<open>tol = 0.1\<close>, although
  both the outlet and the leaf inlet are farther than \<open>0.1\<close> from it.
\<close>

theorem snap_polygon_endpoints_index_counterexample:
  "river_endpoints storeAB [1] = Inr [(2, 2), (1, 1), (0, 0)]
   \<and> last (segment (storeAB ! 1)) = (2, 2) \<and> parent (storeAB ! 1) = None
   \<and> leaves storeAB 1 = Some [segA] \<and> hd segA = (0, 0)
   \<and> last (segment (storeAB ! 0)) = (1, 1) \<and> parent (storeAB ! 0) = Some 1
   \<and> snap_polygon_endpoints hX storeAB [1] (1 / 10) = Inr (hX\<lparr>segments := [[(1, 1), (5, 5)]]\<rparr>)
   \<and> segments hX = [[(1, 101 / 100), (5, 5)]]
   \<and> \<not> distance (2, 2) (1, 101 / 100) < 1 / 10
   \<and> \<not> distance (0, 0) (1, 101 / 100) < 1 / 10"
proof -
  have a: "\<not> distance (2, 2) (1, 101 / 100) < 1 / 10" "\<not> distance (0, 0) (1, 101 / 100) < 1 / 10"
    unfolding distance_less_iff by (simp_all add: power2_eq_square)
  have b: "leaves storeAB 1 = Some [segA]"
    by (simp add: leaves_def leaf_nodes_def preOrder_storeAB) (simp add: storeAB_def)
  have c: "last (segment (storeAB ! 1)) = (2, 2)" "parent (storeAB ! 1) = None"
    "hd segA = (0, 0)" "last (segment (storeAB ! 0)) = (1, 1)" "parent (storeAB ! 0) = Some 1"
    "segments hX = [[(1, 101 / 100), (5, 5)]]"
    by (simp_all add: storeAB_def segA_def segB_def hX_def)
  from re_AB have d: "river_endpoints storeAB [1] = Inr [(2, 2), (1, 1), (0, 0)]" by simp
  from a b c d snap_polygon_endpoints_hX show ?thesis by blast
qed

section \<open>Phase 2: splitting a segment at its breaks\<close>

lemma split_at_length:
  "split_at cs st bs = Inr segs \<Longrightarrow> length segs = Suc (length bs)"
  by (induction bs arbitrary: st segs) (auto split: if_splits sum.splits)

lemma split_at_cover:
  "split_at cs st bs = Inr segs \<Longrightarrow> st \<le> i \<Longrightarrow> i < length cs \<Longrightarrow>
     \<exists>seg\<in>set segs. cs ! i \<in> set seg"
proof (induction bs arbitrary: st segs)
  case Nil
  then have segs: "segs = [drop st cs]" by (auto split: if_splits)
  from Nil.prems(2,3) have "cs ! i = drop st cs ! (i - st)" "i - st < length (drop st cs)"
    by simp_all
  then have "cs ! i \<in> set (drop st cs)" by (metis nth_mem)
  with segs show ?case by simp
next
  case (Cons b bs)
  then obtain segs' where s: "split_at cs b bs = Inr segs'"
    "segs = take (b + 1 - st) (drop st cs) # segs'" "b \<noteq> 0"
    by (auto split: if_splits sum.splits)
  show ?case
  proof (cases "b \<le> i")
    case True
    from Cons.IH [OF s(1) True Cons.prems(3)] s(2) show ?thesis by auto
  next
    case False
    with Cons.prems(2,3) have "i - st < length (take (b + 1 - st) (drop st cs))"
      "take (b + 1 - st) (drop st cs) ! (i - st) = cs ! i" by auto
    then have "cs ! i \<in> set (take (b + 1 - st) (drop st cs))" by (metis nth_mem)
    with s(2) show ?thesis by simp
  qed
qed

lemma split_at_breaks:
  "split_at cs st bs = Inr segs \<Longrightarrow> sorted_wrt (<) (st # bs) \<Longrightarrow> \<forall>b\<in>set bs. b < length cs \<Longrightarrow>
     map hd (tl segs) = map ((!) cs) bs \<and> map last (butlast segs) = map ((!) cs) bs
     \<and> hd (hd segs) = cs ! st \<and> last (last segs) = last cs
     \<and> (\<forall>seg\<in>set segs. 2 \<le> length seg)"
proof (induction bs arbitrary: st segs)
  case Nil
  then have segs: "segs = [drop st cs]" and lt: "Suc st < length cs" by (auto split: if_splits)
  from lt have "hd (drop st cs) = cs ! st" by (simp add: hd_drop_conv_nth)
  moreover from lt have "last (drop st cs) = last cs" by simp
  ultimately show ?case using segs lt by simp
next
  case (Cons b bs)
  then obtain segs' where s: "split_at cs b bs = Inr segs'"
    "segs = take (b + 1 - st) (drop st cs) # segs'"
    by (auto split: if_splits sum.splits)
  from Cons.prems(2) have sb: "sorted_wrt (<) (b # bs)" and stb: "st < b" by simp_all
  from Cons.prems(3) have bl: "b < length cs" and bs: "\<forall>b\<in>set bs. b < length cs" by simp_all
  from Cons.IH [OF s(1) sb bs] have ih: "map hd (tl segs') = map ((!) cs) bs"
    "map last (butlast segs') = map ((!) cs) bs" "hd (hd segs') = cs ! b"
    "last (last segs') = last cs" "\<forall>seg\<in>set segs'. 2 \<le> length seg" by simp_all
  from split_at_length [OF s(1)] have ne: "segs' \<noteq> []" by auto
  let ?f = "take (b + 1 - st) (drop st cs)"
  from stb bl have lf: "length ?f = b + 1 - st" by simp
  with stb have fne: "?f \<noteq> []" by auto
  have "last ?f = ?f ! (b - st)" using lf stb by (simp add: last_conv_nth fne)
  also have "\<dots> = cs ! b" using stb bl by simp
  finally have lastf: "last ?f = cs ! b" .
  have hdf: "hd ?f = cs ! st" using stb bl by (simp add: hd_conv_nth fne)
  have m1: "map hd (tl segs) = map ((!) cs) (b # bs)"
    using s(2) ne ih(1,3) by (cases segs') auto
  have m2: "map last (butlast segs) = map ((!) cs) (b # bs)"
    using s(2) ne ih(2) lastf by simp
  have m3: "hd (hd segs) = cs ! st" using s(2) hdf by simp
  have m4: "last (last segs) = last cs" using s(2) ne ih(4) by simp
  have m5: "\<forall>seg\<in>set segs. 2 \<le> length seg" using s(2) ih(5) lf stb by auto
  from m1 m2 m3 m4 m5 show ?case by blast
qed


lemma breakpoint_inds_sorted: "sorted_wrt (<) (breakpoint_inds nc)"
  unfolding breakpoint_inds_def by (intro sorted_wrt_filter) simp

lemma breakpoint_inds_bound: "\<forall>b\<in>set (breakpoint_inds nc). b < length nc"
  by (simp add: breakpoint_inds_def)

lemma nth_filter_upt:
  "map ((!) xs) (filter (\<lambda>i. P (xs ! i)) [0..<length xs]) = filter P xs"
proof (induction xs rule: rev_induct)
  case Nil
  show ?case by simp
next
  case (snoc x xs)
  have "filter (\<lambda>i. P ((xs @ [x]) ! i)) [0..<length xs] = filter (\<lambda>i. P (xs ! i)) [0..<length xs]"
    by (intro filter_cong) (auto simp: nth_append)
  moreover have "map ((!) (xs @ [x])) (filter (\<lambda>i. P (xs ! i)) [0..<length xs])
      = map ((!) xs) (filter (\<lambda>i. P (xs ! i)) [0..<length xs])"
    by (intro map_cong) (auto simp: nth_append)
  ultimately have "map ((!) (xs @ [x])) (filter (\<lambda>i. P ((xs @ [x]) ! i)) [0..<length xs])
      = filter P xs" using snoc by simp
  then show ?case by simp
qed

lemma breakpoint_coords:
  "map ((!) (map fst nc)) (breakpoint_inds nc) = map fst (filter snd nc)"
proof -
  have "map ((!) (map fst nc)) (breakpoint_inds nc) = map fst (map ((!) nc) (breakpoint_inds nc))"
    by (simp add: breakpoint_inds_def)
  also have "map ((!) nc) (breakpoint_inds nc) = filter snd nc"
    unfolding breakpoint_inds_def by (rule nth_filter_upt)
  finally show ?thesis .
qed

lemma split_at_nonzero:
  "split_at cs st bs = Inr segs \<Longrightarrow> 0 \<notin> set bs"
  by (induction bs arbitrary: st segs) (auto split: if_splits sum.splits)




lemma flag_sorted_set:
  "set (flag_sorted G seg olds news) = (\<lambda>c. (c, False)) ` set olds \<union> (\<lambda>c. (c, True)) ` set news"
  by (simp add: flag_sorted_def)





lemma split_structure:
  assumes "split_at (map fst nc) 0 (breakpoint_inds nc) = Inr segs"
  shows "length segs = Suc (length (filter snd nc))"
    and "map hd (tl segs) = map fst (filter snd nc)"
    and "map last (butlast segs) = map fst (filter snd nc)"
    and "hd (hd segs) = fst (hd nc)" and "last (last segs) = fst (last nc)"
    and "\<forall>seg\<in>set segs. 2 \<le> length seg"
    and "\<forall>c\<in>set (map fst nc). \<exists>seg\<in>set segs. c \<in> set seg"
proof -
  from split_at_length [OF assms] have len: "length segs = Suc (length (breakpoint_inds nc))" .
  have "length (breakpoint_inds nc) = length (map ((!) (map fst nc)) (breakpoint_inds nc))"
    by simp
  also have "\<dots> = length (filter snd nc)" by (simp only: breakpoint_coords length_map)
  finally show "length segs = Suc (length (filter snd nc))" using len by simp
  from split_at_nonzero [OF assms] have "\<forall>b\<in>set (breakpoint_inds nc). 0 < b" by (metis gr0I)
  with breakpoint_inds_sorted [of nc] have s: "sorted_wrt (<) (0 # breakpoint_inds nc)" by simp
  have b: "\<forall>b\<in>set (breakpoint_inds nc). b < length (map fst nc)"
    using breakpoint_inds_bound [of nc] by simp
  from split_at_breaks [OF assms s b] have br:
    "map hd (tl segs) = map ((!) (map fst nc)) (breakpoint_inds nc)"
    "map last (butlast segs) = map ((!) (map fst nc)) (breakpoint_inds nc)"
    "hd (hd segs) = map fst nc ! 0" "last (last segs) = last (map fst nc)"
    "\<forall>seg\<in>set segs. 2 \<le> length seg" by simp_all
  from br(1,2) show "map hd (tl segs) = map fst (filter snd nc)"
    "map last (butlast segs) = map fst (filter snd nc)" by (simp_all only: breakpoint_coords)
  from br(5) show "\<forall>seg\<in>set segs. 2 \<le> length seg" .
  have ne: "nc \<noteq> []"
  proof
    assume "nc = []"
    with assms show False by (simp add: breakpoint_inds_def)
  qed
  from br(3) ne show "hd (hd segs) = fst (hd nc)" by (simp add: hd_conv_nth)
  from br(4) ne show "last (last segs) = fst (last nc)" by (simp add: last_map)
  show "\<forall>c\<in>set (map fst nc). \<exists>seg\<in>set segs. c \<in> set seg"
  proof
    fix c assume "c \<in> set (map fst nc)"
    then obtain i where "i < length (map fst nc)" "c = map fst nc ! i"
      by (metis in_set_conv_nth)
    with split_at_cover [OF assms, of i] show "\<exists>seg\<in>set segs. c \<in> set seg" by simp
  qed
qed

lemma rotate_loop_props:
  assumes b: "b < length nc0"
  shows "length (rotate_loop nc0 b) = Suc (length nc0)"
    and "map fst (rotate_loop nc0 b) = map fst (drop b nc0 @ take (Suc b) nc0)"
    and "hd (rotate_loop nc0 b) = (fst (nc0 ! b), False)"
    and "last (rotate_loop nc0 b) = (fst (nc0 ! b), False)"
    and "butlast (map fst (rotate_loop nc0 b)) = map fst (drop b nc0 @ take b nc0)"
proof -
  define nc1 where "nc1 = drop b nc0 @ take (Suc b) nc0"
  define nc2 where "nc2 = nc1[0 := (fst (nc1 ! 0), False)]"
  have r: "rotate_loop nc0 b = nc2[length nc2 - 1 := (fst (nc2 ! (length nc2 - 1)), False)]"
    by (simp add: rotate_loop_def Let_def nc1_def nc2_def)
  have l1: "length nc1 = Suc (length nc0)" using b by (simp add: nc1_def)
  have l2: "length nc2 = Suc (length nc0)" using l1 by (simp add: nc2_def)
  show len: "length (rotate_loop nc0 b) = Suc (length nc0)" by (simp add: r l2)
  have h1: "nc1 ! 0 = nc0 ! b" using b by (simp add: nc1_def nth_append)
  have "nc1 ! (length (drop b nc0) + b) = take (Suc b) nc0 ! b"
    unfolding nc1_def by (rule nth_append_length_plus)
  moreover have "length (drop b nc0) + b = length nc0" using b by simp
  ultimately have e1: "nc1 ! length nc0 = nc0 ! b" by simp
  have m2: "map fst nc2 = map fst nc1"
    unfolding nc2_def by (simp add: map_update list_update_same_conv l1)
  have "map fst (rotate_loop nc0 b) = map fst nc2"
    unfolding r by (simp add: map_update list_update_same_conv l2)
  with m2 show mf: "map fst (rotate_loop nc0 b) = map fst (drop b nc0 @ take (Suc b) nc0)"
    by (simp add: nc1_def)
  have ne0: "length nc0 \<noteq> 0" using b by auto
  have "rotate_loop nc0 b \<noteq> []" using len by auto
  then have "hd (rotate_loop nc0 b) = rotate_loop nc0 b ! 0" by (rule hd_conv_nth)
  also have "\<dots> = nc2 ! 0" using ne0 l2 by (simp add: r)
  also have "\<dots> = (fst (nc0 ! b), False)" using l1 by (simp add: nc2_def h1)
  finally show "hd (rotate_loop nc0 b) = (fst (nc0 ! b), False)" .
  have "nc2 ! length nc0 = nc1 ! length nc0" using ne0 by (simp add: nc2_def)
  moreover have "nc2 \<noteq> []" using l2 by auto
  ultimately show "last (rotate_loop nc0 b) = (fst (nc0 ! b), False)"
    by (simp add: r last_list_update l2 e1)
  have "butlast (drop b nc0 @ take (Suc b) nc0) = drop b nc0 @ take b nc0"
    using b by (simp add: take_Suc_conv_app_nth butlast_append)
  then have "map fst (butlast (drop b nc0 @ take (Suc b) nc0)) = map fst (drop b nc0 @ take b nc0)"
    by simp
  then show "butlast (map fst (rotate_loop nc0 b)) = map fst (drop b nc0 @ take b nc0)"
    unfolding mf by (simp only: map_butlast)
qed

lemma first_break_flagged:
  assumes "breakpoint_inds nc \<noteq> []"
  shows "hd (breakpoint_inds nc) < length nc" and "snd (nc ! hd (breakpoint_inds nc))"
proof -
  from assms have "hd (breakpoint_inds nc) \<in> set (breakpoint_inds nc)" by simp
  then show "hd (breakpoint_inds nc) < length nc" "snd (nc ! hd (breakpoint_inds nc))"
    by (simp_all add: breakpoint_inds_def)
qed


lemma find_equal_False:
  "find_equal G s p1 acc = Inr False \<longleftrightarrow>
     (\<forall>q\<in>set acc. \<not> close G (req_coord s p1) (req_coord s q) (1 / 10 ^ 5))"
  by (induction acc) auto

lemma find_equal_True:
  "find_equal G s p1 acc = Inr True \<Longrightarrow>
     \<exists>q\<in>set acc. close G (req_coord s p1) (req_coord s q) (1 / 10 ^ 5) \<and> req_comp p1 = req_comp q"
  by (induction acc) (auto split: if_splits)

lemma dedup_props:
  assumes "dedup G s acc ps = Inr kept"
    and "sorted_wrt (\<lambda>q p. \<not> close G (req_coord s p) (req_coord s q) (1 / 10 ^ 5)) acc"
  shows "sorted_wrt (\<lambda>q p. \<not> close G (req_coord s p) (req_coord s q) (1 / 10 ^ 5)) kept"
    and "set acc \<subseteq> set kept" and "set kept \<subseteq> set acc \<union> set ps"
    and "\<forall>p\<in>set ps. p \<in> set kept
           \<or> (\<exists>q\<in>set kept. close G (req_coord s p) (req_coord s q) (1 / 10 ^ 5)
                 \<and> req_comp p = req_comp q)"
    and "acc \<noteq> [] \<or> ps \<noteq> [] \<longrightarrow> kept \<noteq> [] \<and> hd kept = hd (acc @ ps)"
  using assms
proof (induction ps arbitrary: acc)
  case Nil
  {
    case 1 then show ?case by simp
  next
    case 2 then show ?case by simp
  next
    case 3 then show ?case by simp
  next
    case 4 then show ?case by simp
  next
    case 5 then show ?case by auto
  }
next
  case (Cons p ps)
  {
    case 1
    then obtain found where f: "find_equal G s p acc = Inr found"
      "dedup G s (if found then acc else acc @ [p]) ps = Inr kept"
      by (auto split: sum.splits)
    have "sorted_wrt (\<lambda>q p. \<not> close G (req_coord s p) (req_coord s q) (1 / 10 ^ 5))
            (if found then acc else acc @ [p])"
      using 1(2) f(1) by (auto simp: sorted_wrt_append find_equal_False)
    from Cons.IH(1) [OF f(2) this] show ?case .
  next
    case 2
    then obtain found where f: "find_equal G s p acc = Inr found"
      "dedup G s (if found then acc else acc @ [p]) ps = Inr kept"
      by (auto split: sum.splits)
    have "sorted_wrt (\<lambda>q p. \<not> close G (req_coord s p) (req_coord s q) (1 / 10 ^ 5))
            (if found then acc else acc @ [p])"
      using 2(2) f(1) by (auto simp: sorted_wrt_append find_equal_False)
    from Cons.IH(2) [OF f(2) this] show ?case by (auto split: if_splits)
  next
    case 3
    then obtain found where f: "find_equal G s p acc = Inr found"
      "dedup G s (if found then acc else acc @ [p]) ps = Inr kept"
      by (auto split: sum.splits)
    have "sorted_wrt (\<lambda>q p. \<not> close G (req_coord s p) (req_coord s q) (1 / 10 ^ 5))
            (if found then acc else acc @ [p])"
      using 3(2) f(1) by (auto simp: sorted_wrt_append find_equal_False)
    from Cons.IH(3) [OF f(2) this] show ?case by (auto split: if_splits)
  next
    case 4
    then obtain found where f: "find_equal G s p acc = Inr found"
      "dedup G s (if found then acc else acc @ [p]) ps = Inr kept"
      by (auto split: sum.splits)
    have sw: "sorted_wrt (\<lambda>q p. \<not> close G (req_coord s p) (req_coord s q) (1 / 10 ^ 5))
            (if found then acc else acc @ [p])"
      using 4(2) f(1) by (auto simp: sorted_wrt_append find_equal_False)
    note sub = Cons.IH(2) [OF f(2) sw]
    note rest = Cons.IH(4) [OF f(2) sw]
    have "p \<in> set kept
           \<or> (\<exists>q\<in>set kept. close G (req_coord s p) (req_coord s q) (1 / 10 ^ 5)
                 \<and> req_comp p = req_comp q)"
    proof (cases found)
      case True
      with f(1) find_equal_True [of G s p acc] sub show ?thesis by auto
    next
      case False
      with sub show ?thesis by auto
    qed
    with rest show ?case by simp
  next
    case 5
    then obtain found where f: "find_equal G s p acc = Inr found"
      "dedup G s (if found then acc else acc @ [p]) ps = Inr kept"
      by (auto split: sum.splits)
    have sw: "sorted_wrt (\<lambda>q p. \<not> close G (req_coord s p) (req_coord s q) (1 / 10 ^ 5))
            (if found then acc else acc @ [p])"
      using 5(2) f(1) by (auto simp: sorted_wrt_append find_equal_False)
    note h = Cons.IH(5) [OF f(2) sw]
    show ?case
    proof (cases acc)
      case Nil
      with f(1) have "found = False" by simp
      with h Nil show ?thesis by simp
    next
      case (Cons a as)
      with h show ?thesis by (cases found) auto
    qed
  }
qed

lemma new_coords_open:
  assumes "\<not> close G (hd seg) (last seg) (close_tol G)"
  shows "new_coords G seg pts = Inr (flag_sorted G seg seg pts)"
  using assms by (simp add: new_coords_def)


lemma rotate_loop_set:
  assumes "b < length nc0"
  shows "set (map fst (rotate_loop nc0 b)) = set (map fst nc0)"
proof -
  have "set (drop b nc0 @ take (Suc b) nc0) = set nc0"
  proof
    show "set (drop b nc0 @ take (Suc b) nc0) \<subseteq> set nc0"
      using set_drop_subset [of b nc0] set_take_subset [of "Suc b" nc0] by auto
    have "set nc0 = set (take b nc0) \<union> set (drop b nc0)"
      by (metis append_take_drop_id set_append)
    moreover have "set (take b nc0) \<subseteq> set (take (Suc b) nc0)"
      by (rule set_take_subset_set_take) simp
    ultimately show "set nc0 \<subseteq> set (drop b nc0 @ take (Suc b) nc0)" by auto
  qed
  then show ?thesis
    unfolding rotate_loop_props(2) [OF assms] by (metis set_map)
qed

lemma new_coords_holds_points:
  assumes "new_coords G seg pts = Inr nc"
  shows "set pts \<subseteq> set (map fst nc)"
proof (cases "close G (hd seg) (last seg) (close_tol G)")
  case False
  with assms have "nc = flag_sorted G seg seg pts" by (simp add: new_coords_def)
  then show ?thesis by (force simp: flag_sorted_set)
next
  case True
  let ?nc0 = "flag_sorted G seg (butlast seg) pts"
  from True assms have ne: "breakpoint_inds ?nc0 \<noteq> []"
    and nc: "nc = rotate_loop ?nc0 (hd (breakpoint_inds ?nc0))"
    by (auto simp: new_coords_def Let_def split: if_splits)
  from rotate_loop_set [OF first_break_flagged(1) [OF ne]] nc
  have "set (map fst nc) = set (map fst ?nc0)" by simp
  then show ?thesis by (force simp: flag_sorted_set)
qed

lemma new_segments_cover:
  assumes "new_segments G seg pts = Inr segs"
  shows "\<forall>p\<in>set pts. \<exists>sg\<in>set segs. p \<in> set sg"
proof -
  from assms obtain nc where nc: "new_coords G seg pts = Inr nc"
    "split_at (map fst nc) 0 (breakpoint_inds nc) = Inr segs"
    by (auto simp: new_segments_def split: sum.splits)
  from split_structure(7) [OF nc(2)] new_coords_holds_points [OF nc(1)]
  show ?thesis by blast
qed



lemma insert_group_effect:
  assumes "insert_group G s (k, reqs) h = Inr h'"
  shows "\<exists>segs. new_segments G (segments h ! k) (map (req_coord s) reqs) = Inr segs
     \<and> segments h' = (segments h)[k := hd segs] @ tl segs
     \<and> h' = component_add_many (req_comp (hd reqs))
              [length (segments h)..<length (segments h) + length (tl segs)]
              (h\<lparr>segments := (segments h)[k := hd segs] @ tl segs\<rparr>)"
proof -
  from assms obtain segs where
    segs: "new_segments G (segments h ! k) (map (req_coord s) reqs) = Inr segs"
    and h': "h' = component_add_many (req_comp (hd reqs))
              [length (segments h)..<length (segments h) + length (tl segs)]
              (h\<lparr>segments := (segments h)[k := hd segs] @ tl segs\<rparr>)"
    by (auto simp: insert_group_def Let_def split: sum.splits)
  have "segments h' = (segments h)[k := hd segs] @ tl segs"
    unfolding h' by (simp add: component_add_many_def split: comp_ref.splits)
  with segs h' show ?thesis by blast
qed

lemma component_add_many_effect:
  "segments (component_add_many c hs h) = segments h"
  "component_add_many (Boundary i) hs h
     = h\<lparr>boundaries := (boundaries h)[i := boundaries h ! i @ hs]\<rparr>"
  "component_add_many (Intersection i) hs h
     = h\<lparr>intersections := (intersections h)[i := intersections h ! i @ hs]\<rparr>"
  by (simp_all add: component_add_many_def split: comp_ref.splits)

section \<open>Phase 2 on two leaves one millionth apart\<close>

lemma distance_horizontal: "distance (a, y) (b, y) = \<bar>a - b\<bar>"
  by (simp add: distance_def)

lemma distance_vertical: "distance (x, a) (x, b) = \<bar>a - b\<bar>"
  by (simp add: distance_def)

lemma distance_eq_0: "distance p q = 0 \<longleftrightarrow> p = q"
  by (cases p; cases q) (simp add: distance_def sum_power2_eq_zero_iff)

lemma sc1: "snap_and_cut plane (1 / 2, 1 / 20) [(0, 0), (1, 0)] (1 / 10) = Some (1 / 2, 0)"
  by (simp add: snap_and_cut_def plane_def box_near_def edge_nearest_def vec_sub_def
      inner_prod_def distance_vertical Let_def)

lemma sc2: "snap_and_cut plane (500001 / 1000000, 1 / 20) [(0, 0), (1, 0)] (1 / 10)
    = Some (500001 / 1000000, 0)"
  by (simp add: snap_and_cut_def plane_def box_near_def edge_nearest_def vec_sub_def
      inner_prod_def distance_vertical Let_def)

lemma sc3: "snap_and_cut plane (1 / 2, 1) [(0, 0), (1, 0)] (1 / 10) = None"
  by (simp add: snap_and_cut_def plane_def box_near_def)

lemma sc4: "snap_and_cut plane (1 / 2, 2) [(0, 0), (1, 0)] (1 / 10) = None"
  by (simp add: snap_and_cut_def plane_def box_near_def)

lemma sc5: "snap_and_cut plane (1 / 2, 1) [(1, 0), (1, 3), (0, 3), (0, 0)] (1 / 10) = None"
  by (simp add: snap_and_cut_def plane_def box_near_def edge_nearest_def vec_sub_def
      inner_prod_def Let_def distance_def power2_eq_square real_sqrt_divide)

lemma sc6: "snap_and_cut plane (1 / 2, 2) [(1, 0), (1, 3), (0, 3), (0, 0)] (1 / 10) = None"
  by (simp add: snap_and_cut_def plane_def box_near_def edge_nearest_def vec_sub_def
      inner_prod_def Let_def distance_def power2_eq_square real_sqrt_divide)

lemma components_hD: "components hD = [(Boundary 0, [0, 1])]"
  by (simp add: components_def hD_def)

lemma segments_hD: "segments hD = [[(0, 0), (1, 0)], [(1, 0), (1, 3), (0, 3), (0, 0)]]"
  by (simp add: hD_def)

lemma snap_node_D0: "snap_node plane (1 / 10) hD 0 (sD, []) = (sD, [])"
  unfolding snap_node_def components_hD segments_hD
  by (simp add: snap_stage_def end_coord_def sD_def sc3 sc4 sc5 sc6)

lemma snap_node_D1: "snap_node plane (1 / 10) hD (Suc 0) (sD, []) = (sD1, [r1])"
  unfolding snap_node_def components_hD segments_hD
  by (simp add: snap_stage_def end_coord_def sD_def sc1 sc3 sc5 moved_river_def sD1_def r1_def)

lemma snap_node_D2: "snap_node plane (1 / 10) hD 2 (sD1, [r1]) = (sD2, [r1, r2])"
  unfolding snap_node_def components_hD segments_hD
  by (simp add: snap_stage_def end_coord_def sD1_def sc2 sc3 sc5 moved_river_def sD2_def r2_def)

lemma preOrder_sD: "preOrder sD 0 = Some [0, Suc 0, 2]"
  by (simp add: preOrder_def sD_def numeral_3_eq_3)

lemma collect_snaps_D: "collect_snaps plane (1 / 10) hD [0, Suc 0, 2] sD = (sD2, [r1, r2])"
  by (simp add: collect_snaps_def snap_node_D0 snap_node_D1 snap_node_D2)

lemma close_D: "close plane (req_coord sD2 r2) (req_coord sD2 r1) (1 / 10 ^ 5)"
  by (simp add: r1_def r2_def req_coord_def end_coord_def sD2_def plane_def coords_close_def)

lemma comp_D: "req_comp r2 = req_comp r1"
  by (simp add: r1_def r2_def)


lemma to_add_dict_D: "to_add_dict [r1, r2] = [(0, [r1, r2])]"
  by (simp add: to_add_dict_def r1_def r2_def)

lemma dedup_all_D: "dedup_all plane sD2 (to_add_dict [r1, r2]) = Inr [(0, [r1])]"
  using close_D comp_D by (simp add: to_add_dict_D)

lemma req_coord_r1: "req_coord sD2 r1 = (1 / 2, 0)"
  by (simp add: r1_def req_coord_def end_coord_def sD2_def)

lemma project_D:
  "project plane [(0, 0), (1, 0)] (0, 0) = 0"
  "project plane [(0, 0), (1, 0)] (1 / 2, 0) = 1 / 2"
  "project plane [(0, 0), (1, 0)] (1, 0) = 1"
  by (simp_all add: plane_def edge_nearest_def vec_sub_def inner_prod_def distance_horizontal Let_def)

lemma open_D: "\<not> close plane (hd [(0, 0), (1, 0)]) (last [(0, 0), (1 :: real, 0 :: real)]) (close_tol plane)"
  by (simp add: plane_def coords_close_def)

lemma insert_group_D: "insert_group plane sD2 (0, [r1]) hD = Inr hD2"
proof -
  have nc: "new_coords plane [(0, 0), (1, 0)] [(1 / 2, 0)]
      = Inr [((0, 0), False), ((1 / 2, 0), True), ((1, 0), False)]"
    unfolding new_coords_open [OF open_D] by (simp add: flag_sorted_def project_D)
  have bi: "breakpoint_inds [((0, 0), False), ((1 / 2, 0), True), ((1 :: real, 0 :: real), False)] = [1]"
    by (simp add: breakpoint_inds_def upt_rec)
  have "new_segments plane [(0, 0), (1, 0)] [(1 / 2, 0)]
      = Inr [[(0, 0), (1 / 2, 0)], [(1 / 2, 0), (1, 0)]]"
    by (simp add: new_segments_def nc bi)
  then show ?thesis
    by (simp add: insert_group_def segments_hD req_coord_r1)
       (simp add: hD_def hD2_def component_add_many_def r1_def)
qed

lemma snap_endpoints_D: "snap_endpoints plane (1 / 10) 0 (hD, sD) = Inr (hD2, sD2)"
  by (simp add: snap_endpoints_def preOrder_sD collect_snaps_D dedup_all_D insert_group_D)

section \<open>Phase 2: inserting the snapped points into a segment\<close>



section \<open>Phase 2: the requests and their dictionary\<close>

lemma first_snap_handle:
  "first_snap G tol pool pt hs = Some hc \<Longrightarrow>
     fst hc \<in> set hs \<and> snap_and_cut G pt (pool ! fst hc) tol = Some (snd hc)"
  by (induction hs) (auto split: option.splits)

lemma snap_stage_requests:
  assumes "\<forall>r\<in>set (snd st). req_handle r \<in> H" and "set (snd cmpt) \<subseteq> H"
  shows "\<forall>r\<in>set (snd (snap_stage G tol pool e nd cmpt st)). req_handle r \<in> H"
  using assms first_snap_handle [of G tol pool "end_coord (fst st) e nd" "snd cmpt"]
  by (auto simp: snap_stage_def Let_def split: option.splits)

lemma fold_invariant:
  assumes "P st" and "\<And>x st. x \<in> set xs \<Longrightarrow> P st \<Longrightarrow> P (f x st)"
  shows "P (fold f xs st)"
  using assms by (induction xs arbitrary: st) auto

lemma snap_node_requests:
  assumes "\<forall>r\<in>set (snd st). req_handle r \<in> H"
    and "\<forall>c\<in>set (components h). set (snd c) \<subseteq> H"
  shows "\<forall>r\<in>set (snd (snap_node G tol h nd st)). req_handle r \<in> H"
  unfolding snap_node_def
proof (rule fold_invariant [where P = "\<lambda>st :: store \<times> request list. \<forall>r\<in>set (snd st). req_handle r \<in> H"])
  show "\<forall>r\<in>set (snd st). req_handle r \<in> H" by (rule assms(1))
next
  fix x and st' :: "store \<times> request list"
  assume x: "x \<in> set (components h)"
    and st': "\<forall>r\<in>set (snd st'). req_handle r \<in> H"
  from assms(2) x have sub: "set (snd x) \<subseteq> H" by blast
  from snap_stage_requests [OF st' sub]
  have "\<forall>r\<in>set (snd (snap_stage G tol (segments h) At_first nd x st')). req_handle r \<in> H" .
  from snap_stage_requests [OF this sub]
  show "\<forall>r\<in>set (snd (snap_stage G tol (segments h) At_last nd x
            (snap_stage G tol (segments h) At_first nd x st'))). req_handle r \<in> H" .
qed

lemma collect_snaps_requests:
  assumes "\<forall>c\<in>set (components h). set (snd c) \<subseteq> H"
  shows "\<forall>r\<in>set (snd (collect_snaps G tol h ns s)). req_handle r \<in> H"
  unfolding collect_snaps_def
proof (rule fold_invariant [where P = "\<lambda>st :: store \<times> request list. \<forall>r\<in>set (snd st). req_handle r \<in> H"])
  show "\<forall>r\<in>set (snd (s, [])). req_handle r \<in> H" by simp
next
  fix x and st' :: "store \<times> request list"
  assume "\<forall>r\<in>set (snd st'). req_handle r \<in> H"
  from snap_node_requests [OF this assms]
  show "\<forall>r\<in>set (snd (snap_node G tol h x st')). req_handle r \<in> H" .
qed

lemma dict_append_keys:
  "map fst (dict_append k v d) = (if k \<in> set (map fst d) then map fst d else map fst d @ [k])"
  by (induction d) auto

lemma dict_append_distinct:
  "distinct (map fst d) \<Longrightarrow> distinct (map fst (dict_append k v d))"
  by (simp add: dict_append_keys)

lemma dict_append_values:
  "kv \<in> set (dict_append k v d) \<Longrightarrow> x \<in> set (snd kv) \<Longrightarrow>
     (x = v \<and> fst kv = k) \<or> (\<exists>kv'\<in>set d. fst kv' = fst kv \<and> x \<in> set (snd kv'))"
  by (induction d) (auto split: if_splits)

lemma dict_append_covers:
  "\<exists>kv\<in>set (dict_append k v d). fst kv = k \<and> v \<in> set (snd kv)"
  by (induction d) auto

lemma dict_append_keeps:
  "kv \<in> set d \<Longrightarrow> x \<in> set (snd kv) \<Longrightarrow>
     \<exists>kv'\<in>set (dict_append k v d). fst kv' = fst kv \<and> x \<in> set (snd kv')"
  by (induction d) (auto split: if_splits)

lemma foldl_invariant:
  assumes "P d" and "\<And>x d. x \<in> set xs \<Longrightarrow> P d \<Longrightarrow> P (f d x)"
  shows "P (foldl f d xs)"
  using assms by (induction xs arbitrary: d) auto

lemma to_add_dict_props:
  shows "distinct (map fst (to_add_dict to_add))"
    and "\<forall>kv\<in>set (to_add_dict to_add). \<forall>r\<in>set (snd kv). r \<in> set to_add \<and> req_handle r = fst kv"
proof -
  let ?P = "\<lambda>d. distinct (map fst d)
        \<and> (\<forall>kv\<in>set d. \<forall>r\<in>set (snd kv). r \<in> set to_add \<and> req_handle r = fst kv)"
  have "?P (foldl (\<lambda>d r. dict_append (req_handle r) r d) [] to_add)"
  proof (rule foldl_invariant [where P = ?P])
    show "?P []" by simp
  next
    fix x d assume x: "x \<in> set to_add" and d: "?P d"
    show "?P (dict_append (req_handle x) x d)"
    proof (intro conjI ballI)
      from d show "distinct (map fst (dict_append (req_handle x) x d))"
        by (simp add: dict_append_distinct)
    next
      fix kv r assume "kv \<in> set (dict_append (req_handle x) x d)" "r \<in> set (snd kv)"
      from dict_append_values [OF this] d x show "r \<in> set to_add" by auto
    next
      fix kv r assume "kv \<in> set (dict_append (req_handle x) x d)" "r \<in> set (snd kv)"
      from dict_append_values [OF this] d x show "req_handle r = fst kv" by auto
    qed
  qed
  then show "distinct (map fst (to_add_dict to_add))"
    and "\<forall>kv\<in>set (to_add_dict to_add). \<forall>r\<in>set (snd kv). r \<in> set to_add \<and> req_handle r = fst kv"
    by (simp_all add: to_add_dict_def)
qed

lemma to_add_dict_covers:
  "r \<in> set to_add \<Longrightarrow> \<exists>kv\<in>set (to_add_dict to_add). r \<in> set (snd kv)"
proof -
  have g: "(\<forall>r\<in>set xs \<union> R. \<exists>kv\<in>set (foldl (\<lambda>d r. dict_append (req_handle r) r d) d xs).
              r \<in> set (snd kv))"
    if "\<forall>r\<in>R. \<exists>kv\<in>set d. r \<in> set (snd kv)" for xs d and R :: "request set"
    using that
  proof (induction xs arbitrary: d R)
    case Nil
    then show ?case by simp
  next
    case (Cons x xs)
    have "\<forall>r\<in>insert x R. \<exists>kv\<in>set (dict_append (req_handle x) x d). r \<in> set (snd kv)"
    proof
      fix r assume "r \<in> insert x R"
      then show "\<exists>kv\<in>set (dict_append (req_handle x) x d). r \<in> set (snd kv)"
      proof
        assume "r = x"
        with dict_append_covers [of "req_handle x" x d] show ?thesis by auto
      next
        assume "r \<in> R"
        with Cons.prems obtain kv where "kv \<in> set d" "r \<in> set (snd kv)" by blast
        from dict_append_keeps [OF this] show ?thesis by blast
      qed
    qed
    from Cons.IH [OF this] show ?case by simp
  qed
  assume "r \<in> set to_add"
  with g [of "{}" "[]" to_add] show ?thesis by (simp add: to_add_dict_def)
qed

lemma dedup_all_props:
  "dedup_all G s d = Inr d2 \<Longrightarrow>
     map fst d2 = map fst d
     \<and> (\<forall>i<length d. dedup G s [] (snd (d ! i)) = Inr (snd (d2 ! i)))"
proof (induction d arbitrary: d2)
  case Nil
  then show ?case by simp
next
  case (Cons kv d)
  then obtain new_list d2' where r: "dedup G s [] (snd kv) = Inr new_list"
    "dedup_all G s d = Inr d2'" "d2 = (fst kv, new_list) # d2'"
    by (auto split: sum.splits)
  from Cons.IH [OF r(2)] have ih: "map fst d2' = map fst d"
    "\<forall>i<length d. dedup G s [] (snd (d ! i)) = Inr (snd (d2' ! i))" by simp_all
  have "dedup G s [] (snd ((kv # d) ! i)) = Inr (snd (d2 ! i))" if "i < length (kv # d)" for i
    using that r(1,3) ih(2) by (cases i) auto
  with ih(1) r(3) show ?case by simp
qed

section \<open>Phase 2: inserted coordinates stay in the pool\<close>

lemma insert_group_pool:
  assumes "insert_group G s (k, reqs) h = Inr h'"
  shows "length (segments h) \<le> length (segments h')"
    and "i < length (segments h) \<Longrightarrow> i \<noteq> k \<Longrightarrow> segments h' ! i = segments h ! i"
proof -
  from insert_group_effect [OF assms] obtain segs where
    e: "segments h' = (segments h)[k := hd segs] @ tl segs" by blast
  show "length (segments h) \<le> length (segments h')" by (simp add: e)
  show "i < length (segments h) \<Longrightarrow> i \<noteq> k \<Longrightarrow> segments h' ! i = segments h ! i"
    by (simp add: e nth_append)
qed

lemma insert_all_pool:
  "insert_all G s d h = Inr h' \<Longrightarrow> i < length (segments h) \<Longrightarrow> i \<notin> fst ` set d \<Longrightarrow>
     i < length (segments h') \<and> segments h' ! i = segments h ! i"
proof (induction d arbitrary: h)
  case Nil
  then show ?case by simp
next
  case (Cons grp d)
  then obtain h1 where h1: "insert_group G s (fst grp, snd grp) h = Inr h1"
    "insert_all G s d h1 = Inr h'" by (auto split: sum.splits)
  from Cons.prems(3) have ik: "i \<noteq> fst grp" and id: "i \<notin> fst ` set d" by auto
  note p = insert_group_pool [OF h1(1)]
  from p(1) Cons.prems(2) have i1: "i < length (segments h1)" by simp
  from Cons.IH [OF h1(2) i1 id] p(2) [OF Cons.prems(2) ik] show ?case by simp
qed

lemma insert_group_vertices:
  assumes ig: "insert_group G s (k, reqs) h = Inr h'" and k: "k < length (segments h)"
    and p: "p \<in> set reqs"
  shows "\<exists>i<length (segments h'). (i = k \<or> length (segments h) \<le> i)
           \<and> req_coord s p \<in> set (segments h' ! i)"
proof -
  from insert_group_effect [OF ig] obtain segs where
    segs: "new_segments G (segments h ! k) (map (req_coord s) reqs) = Inr segs"
    and e: "segments h' = (segments h)[k := hd segs] @ tl segs" by blast
  from segs obtain nc where "split_at (map fst nc) 0 (breakpoint_inds nc) = Inr segs"
    by (auto simp: new_segments_def split: sum.splits)
  from split_at_length [OF this] have ne: "segs \<noteq> []" by auto
  from new_segments_cover [OF segs] p obtain sg where sg: "sg \<in> set segs" "req_coord s p \<in> set sg"
    by auto
  from ne have "segs = hd segs # tl segs" by simp
  with sg(1) have "sg = hd segs \<or> sg \<in> set (tl segs)" by (metis set_ConsD)
  then show ?thesis
  proof
    assume "sg = hd segs"
    with sg(2) k e have "k < length (segments h')" "req_coord s p \<in> set (segments h' ! k)"
      by (simp_all add: nth_append)
    then show ?thesis by blast
  next
    assume "sg \<in> set (tl segs)"
    then obtain j where j: "j < length (tl segs)" "sg = tl segs ! j"
      by (metis in_set_conv_nth)
    let ?i = "length (segments h) + j"
    from j e have "?i < length (segments h')" "segments h' ! ?i = sg"
      by (simp_all add: nth_append)
    with sg(2) show ?thesis by (intro exI [of _ ?i]) simp
  qed
qed

lemma insert_all_vertices:
  "insert_all G s d h = Inr h' \<Longrightarrow> distinct (map fst d) \<Longrightarrow>
   \<forall>k\<in>fst ` set d. k < length (segments h) \<Longrightarrow> grp \<in> set d \<Longrightarrow> p \<in> set (snd grp) \<Longrightarrow>
     \<exists>sg\<in>set (segments h'). req_coord s p \<in> set sg"
proof (induction d arbitrary: h)
  case Nil
  then show ?case by simp
next
  case (Cons g d)
  then obtain h1 where h1: "insert_group G s (fst g, snd g) h = Inr h1"
    "insert_all G s d h1 = Inr h'" by (auto split: sum.splits)
  from Cons.prems(2) have dk: "fst g \<notin> fst ` set d" and dd: "distinct (map fst d)" by auto
  from Cons.prems(3) have kg: "fst g < length (segments h)"
    and kd: "\<forall>k\<in>fst ` set d. k < length (segments h)" by auto
  note pool = insert_group_pool(1) [OF h1(1)]
  from Cons.prems(4) show ?case
  proof (simp only: set_ConsD list.set insert_iff, elim disjE)
    assume "grp = g"
    with Cons.prems(5) have "p \<in> set (snd g)" by simp
    from insert_group_vertices [OF h1(1) kg this] obtain i where
      i: "i < length (segments h1)" "i = fst g \<or> length (segments h) \<le> i"
      "req_coord s p \<in> set (segments h1 ! i)" by blast
    have "i \<notin> fst ` set d"
    proof
      assume a: "i \<in> fst ` set d"
      with kd have "i < length (segments h)" by blast
      with i(2) have "i = fst g" by simp
      with a dk show False by simp
    qed
    from insert_all_pool [OF h1(2) i(1) this] i(3) show ?thesis by (metis nth_mem)
  next
    assume g: "grp \<in> set d"
    from kd pool have "\<forall>k\<in>fst ` set d. k < length (segments h1)" by fastforce
    from Cons.IH [OF h1(2) dd this g Cons.prems(5)] show ?thesis .
  qed
qed

section \<open>Phase 2: where the snapped river endpoints end up\<close>

lemma dict_append_nonempty:
  "\<forall>kv\<in>set d. snd kv \<noteq> [] \<Longrightarrow> \<forall>kv\<in>set (dict_append k v d). snd kv \<noteq> []"
  by (induction d) auto

lemma to_add_dict_nonempty:
  "\<forall>kv\<in>set (to_add_dict to_add). snd kv \<noteq> []"
  unfolding to_add_dict_def
  by (rule foldl_invariant [where P = "\<lambda>d :: (nat \<times> request list) list. \<forall>kv\<in>set d. snd kv \<noteq> []"])
     (simp_all add: dict_append_nonempty)

lemma distance_self: "distance p p = 0"
  by (simp add: distance_def)

text \<open>
  Claim C3, as amended. Let \<open>snap_endpoints\<close> return on a boundary whose components
  name pooled segments only. The first loop records a request for every river endpoint
  that \<open>_snap_and_cut\<close> moves onto a boundary segment (it was within \<open>tol\<close> of the
  segment and not already one of its coordinates). For every request that survives the
  deduplication, the endpoint of the river, as the tree holds it after the call, is a
  coordinate of a segment of the resulting pool: its distance to that boundary vertex is
  exactly 0. Every other recorded endpoint is within \<open>1e-5\<close> (\<open>close\<close>) of the endpoint
  of a surviving request, and no more is claimed for it.
\<close>

theorem snap_endpoints_coincidence:
  assumes valid: "\<forall>c\<in>set (components h). \<forall>k\<in>set (snd c). k < length (segments h)"
    and tr: "preOrder s tree = Some ns"
    and cs: "collect_snaps G tol h ns s = (s1, to_add)"
    and dd: "dedup_all G s1 (to_add_dict to_add) = Inr d2"
    and run: "snap_endpoints G tol tree (h, s) = Inr (h', s')"
  shows "s' = s1
     \<and> (\<forall>grp\<in>set d2. \<forall>p\<in>set (snd grp).
           \<exists>sg\<in>set (segments h'). \<exists>v\<in>set sg. distance (req_coord s' p) v = 0)
     \<and> (\<forall>r\<in>set to_add. \<exists>grp\<in>set d2. \<exists>q\<in>set (snd grp).
           r = q \<or> close G (req_coord s' r) (req_coord s' q) (1 / 10 ^ 5))"
proof -
  from run tr cs dd have ia: "insert_all G s1 d2 h = Inr h'" and s': "s' = s1"
    by (auto simp: snap_endpoints_def Let_def split: sum.splits)
  let ?d = "to_add_dict to_add"
  note dp = dedup_all_props [OF dd]
  from dp have keys: "map fst d2 = map fst ?d" by simp
  from dp have len: "length d2 = length ?d" by (metis length_map)
  have dist: "distinct (map fst d2)" using to_add_dict_props(1) [of to_add] keys by simp
  have H: "\<forall>r\<in>set to_add. req_handle r \<in> {k. k < length (segments h)}"
  proof -
    have "\<forall>c\<in>set (components h). set (snd c) \<subseteq> {k. k < length (segments h)}"
      using valid by auto
    from collect_snaps_requests [OF this, of G tol ns s] cs show ?thesis by simp
  qed
  have kv: "\<forall>k\<in>fst ` set d2. k < length (segments h)"
  proof
    fix k assume "k \<in> fst ` set d2"
    then have "k \<in> set (map fst ?d)" using keys by (metis set_map)
    then obtain kv where kv: "kv \<in> set ?d" "fst kv = k" by auto
    with to_add_dict_nonempty [of to_add] have "hd (snd kv) \<in> set (snd kv)" by simp
    with to_add_dict_props(2) [of to_add] kv
    have "hd (snd kv) \<in> set to_add" "req_handle (hd (snd kv)) = k" by auto
    with H show "k < length (segments h)" by auto
  qed
  have V: "\<forall>grp\<in>set d2. \<forall>p\<in>set (snd grp).
           \<exists>sg\<in>set (segments h'). \<exists>v\<in>set sg. distance (req_coord s' p) v = 0"
  proof (intro ballI)
    fix grp p assume "grp \<in> set d2" "p \<in> set (snd grp)"
    from insert_all_vertices [OF ia dist kv this] obtain sg where
      "sg \<in> set (segments h')" "req_coord s1 p \<in> set sg" by blast
    with s' distance_self [of "req_coord s1 p"]
    show "\<exists>sg\<in>set (segments h'). \<exists>v\<in>set sg. distance (req_coord s' p) v = 0" by blast
  qed
  have C: "\<forall>r\<in>set to_add. \<exists>grp\<in>set d2. \<exists>q\<in>set (snd grp).
           r = q \<or> close G (req_coord s' r) (req_coord s' q) (1 / 10 ^ 5)"
  proof
    fix r assume "r \<in> set to_add"
    from to_add_dict_covers [OF this] obtain g where g: "g \<in> set ?d" "r \<in> set (snd g)" by blast
    then obtain i where i: "i < length ?d" "g = ?d ! i" by (metis in_set_conv_nth)
    with dp have de: "dedup G s1 [] (snd g) = Inr (snd (d2 ! i))" by simp
    have sw: "sorted_wrt (\<lambda>q p. \<not> close G (req_coord s1 p) (req_coord s1 q) (1 / 10 ^ 5)) []"
      by simp
    from dedup_props(4) [OF de sw] g(2)
    have "r \<in> set (snd (d2 ! i))
        \<or> (\<exists>q\<in>set (snd (d2 ! i)). close G (req_coord s1 r) (req_coord s1 q) (1 / 10 ^ 5)
              \<and> req_comp r = req_comp q)" by blast
    moreover from i(1) len have "d2 ! i \<in> set d2" by simp
    ultimately show "\<exists>grp\<in>set d2. \<exists>q\<in>set (snd grp).
           r = q \<or> close G (req_coord s' r) (req_coord s' q) (1 / 10 ^ 5)"
      unfolding s' by blast
  qed
  from s' V C show ?thesis by blast
qed

lemma valid_hD: "\<forall>c\<in>set (components hD). \<forall>k\<in>set (snd c). k < length (segments hD)"
  by (simp add: components_hD segments_hD)

theorem snap_endpoints_coincidence_witness:
  "components hD = [(Boundary 0, [0, 1])] \<and> length (segments hD) = 2
   \<and> preOrder sD 0 = Some [0, 1, 2]
   \<and> collect_snaps plane (1 / 10) hD [0, 1, 2] sD = (sD2, [r1, r2])
   \<and> dedup_all plane sD2 (to_add_dict [r1, r2]) = Inr [(0, [r1])]
   \<and> snap_endpoints plane (1 / 10) 0 (hD, sD) = Inr (hD2, sD2)
   \<and> list_ex (list_ex (\<lambda>v. distance (req_coord sD2 r1) v = 0)) (segments hD2)"
proof -
  have p: "preOrder sD 0 = Some [0, 1, 2]" using preOrder_sD by simp
  have c: "collect_snaps plane (1 / 10) hD [0, 1, 2] sD = (sD2, [r1, r2])"
    using collect_snaps_D by simp
  from snap_endpoints_coincidence [OF valid_hD p c dedup_all_D snap_endpoints_D]
  have "\<forall>grp\<in>set [(0 :: nat, [r1])]. \<forall>p\<in>set (snd grp).
           \<exists>sg\<in>set (segments hD2). \<exists>v\<in>set sg. distance (req_coord sD2 p) v = 0" by blast
  then have "list_ex (list_ex (\<lambda>v. distance (req_coord sD2 r1) v = 0)) (segments hD2)"
    by (simp add: list_ex_iff)
  with p c dedup_all_D snap_endpoints_D components_hD segments_hD show ?thesis by simp
qed

text \<open>
  Claim C3 as stated fails. The first coordinate of the second leaf (node 2) is at
  distance 0.05 of the boundary segment of handle 0, within \<open>tol = 0.1\<close>, and
  \<open>_snap_and_cut\<close> moves it onto the segment. Its insertion request is deduplicated
  against that of the first leaf, one millionth away, so after Phase 2 on the tree the
  endpoint is a coordinate of no boundary segment: its distance to the nearest boundary
  vertex, \<open>(0.5, 0)\<close>, is \<open>1e-6\<close>, not 0.
\<close>

theorem snap_endpoints_coincidence_counterexample:
  "snap_and_cut plane (hd (segment (sD ! 2))) (segments hD ! 0) (1 / 10)
     = Some (500001 / 1000000, 0)
   \<and> snap_endpoints plane (1 / 10) 0 (hD, sD) = Inr (hD2, sD2)
   \<and> hd (segment (sD2 ! 2)) = (500001 / 1000000, 0)
   \<and> segments hD2 = [[(0, 0), (1 / 2, 0)], [(1, 0), (1, 3), (0, 3), (0, 0)],
                      [(1 / 2, 0), (1, 0)]]
   \<and> \<not> list_ex (list_ex (\<lambda>v. distance (hd (segment (sD2 ! 2))) v = 0)) (segments hD2)
   \<and> distance (hd (segment (sD2 ! 2))) (1 / 2, 0) = 1 / 10 ^ 6"
proof -
  have a: "snap_and_cut plane (hd (segment (sD ! 2))) (segments hD ! 0) (1 / 10)
     = Some (500001 / 1000000, 0)"
    using sc2 by (simp add: sD_def segments_hD)
  have b: "hd (segment (sD2 ! 2)) = (500001 / 1000000, 0)" by (simp add: sD2_def)
  have c: "segments hD2 = [[(0, 0), (1 / 2, 0)], [(1, 0), (1, 3), (0, 3), (0, 0)],
                      [(1 / 2, 0), (1, 0)]]" by (simp add: hD2_def)
  have d: "\<not> list_ex (list_ex (\<lambda>v. distance (hd (segment (sD2 ! 2))) v = 0)) (segments hD2)"
    unfolding b c by (simp add: distance_eq_0)
  have e: "distance (hd (segment (sD2 ! 2))) (1 / 2, 0) = 1 / 10 ^ 6"
    unfolding b by (simp add: distance_horizontal)
  from a snap_endpoints_D b c d e show ?thesis by blast
qed

section \<open>The snap operation\<close>

text \<open>
  Claim C1, as amended. On a list of consistent river trees: a HUCs object whose rings do
  not reconstruct at entry makes \<open>snap\<close> raise AssertionError (line 23), and an empty
  list of rivers makes it return \<open>True\<close> with nothing changed and no phase run. Otherwise
  \<open>snap\<close> runs Phase 1 and re-checks both invariants; if either fails it returns
  \<open>False\<close>, the boundary left as Phase 1 made it and Phase 2 not run; if both hold it
  runs Phase 2, on every tree in turn, re-checks both and returns \<open>False\<close> if either
  fails and \<open>True\<close> otherwise, the state left as Phase 2 made it. Whenever \<open>snap\<close>
  returns, the Boolean is the value of the two checks on the state it leaves. What a
  phase raises, \<open>snap\<close> raises.
\<close>

theorem snap_two_phases:
  assumes "list_all (is_consistent G s) rivers"
  shows "(\<not> polygons_ok G h \<longrightarrow> snap G h s rivers tol tol_triples = Inl AssertionError)
     \<and> (polygons_ok G h \<and> rivers = [] \<longrightarrow> snap G h s rivers tol tol_triples = Inr (True, h, s))
     \<and> (polygons_ok G h \<and> rivers \<noteq> [] \<longrightarrow>
          (\<forall>e. snap_polygon_endpoints h s rivers (case tol_triples of None \<Rightarrow> tol | Some t \<Rightarrow> t)
                 = Inl e \<longrightarrow> snap G h s rivers tol tol_triples = Inl e)
        \<and> (\<forall>h1. snap_polygon_endpoints h s rivers (case tol_triples of None \<Rightarrow> tol | Some t \<Rightarrow> t)
                 = Inr h1 \<longrightarrow>
             (\<not> checks G h1 s rivers \<longrightarrow>
                snap G h s rivers tol tol_triples = Inr (False, h1, s))
           \<and> (checks G h1 s rivers \<longrightarrow>
                (\<forall>e. snap_endpoints_all G tol rivers (h1, s) = Inl e \<longrightarrow>
                      snap G h s rivers tol tol_triples = Inl e)
              \<and> (\<forall>h2 s2. snap_endpoints_all G tol rivers (h1, s) = Inr (h2, s2) \<longrightarrow>
                      snap G h s rivers tol tol_triples
                        = Inr (checks G h2 s2 rivers, h2, s2)))))
     \<and> (\<forall>b h' s'. snap G h s rivers tol tol_triples = Inr (b, h', s') \<longrightarrow>
           b = checks G h' s' rivers)"
proof -
  let ?tt = "case tol_triples of None \<Rightarrow> tol | Some t \<Rightarrow> t"
  have A: "\<not> polygons_ok G h \<longrightarrow> snap G h s rivers tol tol_triples = Inl AssertionError"
    using assms by (simp add: snap_def)
  have B: "polygons_ok G h \<and> rivers = [] \<longrightarrow>
      snap G h s rivers tol tol_triples = Inr (True, h, s)"
    by (simp add: snap_def)
  have C1: "snap G h s rivers tol tol_triples = Inl e"
    if "polygons_ok G h" "rivers \<noteq> []" "snap_polygon_endpoints h s rivers ?tt = Inl e" for e
    using that assms by (simp add: snap_def Let_def)
  have C2: "snap G h s rivers tol tol_triples = Inr (False, h1, s)"
    if "polygons_ok G h" "rivers \<noteq> []" "snap_polygon_endpoints h s rivers ?tt = Inr h1"
      "\<not> checks G h1 s rivers" for h1
    using that assms by (auto simp: snap_def Let_def checks_def)
  have C3: "snap G h s rivers tol tol_triples = Inl e"
    if "polygons_ok G h" "rivers \<noteq> []" "snap_polygon_endpoints h s rivers ?tt = Inr h1"
      "checks G h1 s rivers" "snap_endpoints_all G tol rivers (h1, s) = Inl e" for h1 e
    using that assms by (simp add: snap_def Let_def checks_def)
  have C4: "snap G h s rivers tol tol_triples = Inr (checks G h2 s2 rivers, h2, s2)"
    if "polygons_ok G h" "rivers \<noteq> []" "snap_polygon_endpoints h s rivers ?tt = Inr h1"
      "checks G h1 s rivers" "snap_endpoints_all G tol rivers (h1, s) = Inr (h2, s2)" for h1 h2 s2
    using that assms by (simp add: snap_def Let_def checks_def)
  have D: "b = checks G h' s' rivers"
    if r: "snap G h s rivers tol tol_triples = Inr (b, h', s')" for b h' s'
  proof (cases "polygons_ok G h")
    case False
    with A r show ?thesis by simp
  next
    case ok: True
    show ?thesis
    proof (cases "rivers = []")
      case True
      with B ok r assms show ?thesis by (simp add: checks_def)
    next
      case ne: False
      show ?thesis
      proof (cases "snap_polygon_endpoints h s rivers ?tt")
        case (Inl e)
        with C1 [OF ok ne] r show ?thesis by simp
      next
        case (Inr h1)
        show ?thesis
        proof (cases "checks G h1 s rivers")
          case False
          with C2 [OF ok ne Inr] r show ?thesis by simp
        next
          case c: True
          show ?thesis
          proof (cases "snap_endpoints_all G tol rivers (h1, s)")
            case (Inl e)
            with C3 [OF ok ne Inr c] r show ?thesis by simp
          next
            case (Inr hs2)
            with C4 [OF ok ne \<open>snap_polygon_endpoints h s rivers ?tt = Inr h1\<close> c, of "fst hs2" "snd hs2"] r
            show ?thesis by auto
          qed
        qed
      qed
    qed
  qed
  from A B C1 C2 C3 C4 D show ?thesis by blast
qed


lemma consistent_storeAB: "list_all (is_consistent plane storeAB) [1]"
  by (simp add: plane_def tree_consistent_def preOrder_storeAB)
     (simp add: storeAB_def segA_def segB_def)

lemma open_hX: "\<not> polygons_ok plane hX"
  by (simp add: plane_def rings_close_def hX_def)

lemma closed_hSq: "polygons_ok plane hSq"
  by (simp add: plane_def rings_close_def hSq_def)

lemma kd_far:
  "fst (kd_query [(2, 2), (1, 1), (0, 0)] (10, 10)) = distance (2, 2) (10, 10)"
  by (simp add: kd_query_def argmin_def distance_def power2_eq_square)

lemma far_Sq: "\<not> distance (2, 2) (10, 10) < 1 / 10"
  unfolding distance_less_iff by (simp add: power2_eq_square)

lemma phase1_hSq: "snap_polygon_endpoints hSq storeAB [1] (1 / 10) = Inr hSq"
  using far_Sq
  by (simp add: snap_polygon_endpoints_def re_AB hSq_def move_endpoints_def kd_far)

lemma no_snap_Sq:
  "fst p < 9 \<Longrightarrow>
   snap_and_cut plane p [(10, 10), (11, 10), (11, 11), (10, 11), (10, 10)] (1 / 10) = None"
  by (simp add: snap_and_cut_def plane_def box_near_def)

lemma components_hSq: "components hSq = [(Boundary 0, [0])]"
  by (simp add: components_def hSq_def)

lemma segments_hSq: "segments hSq = [[(10, 10), (11, 10), (11, 11), (10, 11), (10, 10)]]"
  by (simp add: hSq_def)

lemma snap_node_Sq:
  "n < 2 \<Longrightarrow> snap_node plane (1 / 10) hSq n (storeAB, []) = (storeAB, [])"
  unfolding snap_node_def components_hSq segments_hSq
  by (cases n; cases "n - 1")
     (simp_all add: snap_stage_def end_coord_def storeAB_def segA_def segB_def no_snap_Sq)

lemma phase2_hSq: "snap_endpoints_all plane (1 / 10) [1] (hSq, storeAB) = Inr (hSq, storeAB)"
  by (simp add: snap_endpoints_def preOrder_storeAB collect_snaps_def snap_node_Sq
      to_add_dict_def)

lemma snap_hSq: "snap plane hSq storeAB [1] (1 / 10) None = Inr (True, hSq, storeAB)"
  using consistent_storeAB closed_hSq phase1_hSq phase2_hSq
  by (simp add: snap_def)

lemma snap_hX: "snap plane hX storeAB [1] (1 / 10) None = Inl AssertionError"
  using consistent_storeAB open_hX by (simp add: snap_def)


lemma preOrder_sE: "preOrder sE 0 = Some [0]"
  by (simp add: preOrder_def sE_def)

lemma consistent_sE: "list_all (is_consistent plane sE) [0]"
  by (simp add: plane_def tree_consistent_def preOrder_sE) (simp add: sE_def)

lemma closed_hE: "polygons_ok plane hE"
  by (simp add: plane_def rings_close_def hE_def)

lemma re_E: "river_endpoints sE [0] = Inr [(21 / 20, 0), (1 / 2, 1 / 2)]"
  by (simp add: river_endpoints_def dfs_def leaves_def leaf_nodes_def preOrder_sE)
     (simp add: sE_def)

lemma kdE0: "kd_query [(21 / 20, 0), (1 / 2, 1 / 2)] (0, 0) = (distance (1 / 2, 1 / 2) (0, 0), 1)"
  by (simp add: kd_query_def argmin_def distance_def power2_eq_square)

lemma kdE1: "kd_query [(21 / 20, 0), (1 / 2, 1 / 2)] (1, 0) = (distance (21 / 20, 0) (1, 0), 0)"
  by (simp add: kd_query_def argmin_def distance_def power2_eq_square)

lemma farE0: "\<not> distance (1 / 2, 1 / 2) (0, 0) < 1 / 100"
  unfolding distance_less_iff by (simp add: power2_eq_square)

lemma farE1: "\<not> distance (21 / 20, 0) (1, 0) < 1 / 100"
  unfolding distance_less_iff by (simp add: power2_eq_square)

lemma phase1_hE: "snap_polygon_endpoints hE sE [0] (1 / 100) = Inr hE"
  using farE0 farE1
  by (simp add: snap_polygon_endpoints_def re_E hE_def move_endpoints_def kdE0 kdE1 Let_def min_def)

lemma scE1: "snap_and_cut plane (1 / 2, 1 / 2) [(0, 0), (1, 0)] (1 / 10) = None"
  by (simp add: snap_and_cut_def plane_def box_near_def)

lemma scE2: "snap_and_cut plane (1 / 2, 1 / 2) [(1, 0), (1, 1), (0, 1), (0, 0)] (1 / 10) = None"
  by (simp add: snap_and_cut_def plane_def box_near_def edge_nearest_def vec_sub_def
      inner_prod_def Let_def distance_def power2_eq_square real_sqrt_divide)

lemma scE3: "snap_and_cut plane (21 / 20, 0) [(0, 0), (1, 0)] (1 / 10) = Some (1, 0)"
  by (simp add: snap_and_cut_def plane_def box_near_def edge_nearest_def vec_sub_def
      inner_prod_def distance_horizontal Let_def)

lemma components_hE: "components hE = [(Boundary 0, [0, 1])]"
  by (simp add: components_def hE_def)

lemma segments_hE: "segments hE = [[(0, 0), (1, 0)], [(1, 0), (1, 1), (0, 1), (0, 0)]]"
  by (simp add: hE_def)

lemma snap_node_E:
  "snap_node plane (1 / 10) hE 0 (sE, [])
     = ([\<lparr>segment = [(1 / 2, 1 / 2), (1, 0)], parent = None, children = []\<rparr>],
        [\<lparr>req_handle = 0, req_comp = Boundary 0, req_end = At_last, req_node = 0\<rparr>])"
  unfolding snap_node_def components_hE segments_hE
  by (simp add: snap_stage_def end_coord_def sE_def scE1 scE2 scE3 moved_river_def trim_back_def)

lemma new_segments_E: "new_segments plane [(0, 0), (1, 0)] [(1, 0)] = Inl AssertionError"
proof -
  have nc: "new_coords plane [(0, 0), (1, 0)] [(1, 0)]
      = Inr [((0, 0), False), ((1, 0), False), ((1, 0), True)]"
    unfolding new_coords_open [OF open_D] by (simp add: flag_sorted_def project_D)
  have bi: "breakpoint_inds [((0, 0), False), ((1, 0), False), ((1 :: real, 0 :: real), True)] = [2]"
    by (simp add: breakpoint_inds_def upt_rec)
  show ?thesis by (simp add: new_segments_def nc bi)
qed

lemma phase2_hE: "snap_endpoints_all plane (1 / 10) [0] (hE, sE) = Inl AssertionError"
  using new_segments_E
  by (simp add: snap_endpoints_def preOrder_sE collect_snaps_def snap_node_E to_add_dict_def
      insert_group_def segments_hE req_coord_def end_coord_def)

lemma snap_hE: "snap plane hE sE [0] (1 / 10) (Some (1 / 100)) = Inl AssertionError"
  using consistent_sE closed_hE phase1_hE phase2_hE
  by (simp add: snap_def)

theorem snap_two_phases_witness:
  "list_all (is_consistent plane storeAB) [1] \<and> polygons_ok plane hSq
   \<and> snap_polygon_endpoints hSq storeAB [1] (1 / 10) = Inr hSq
   \<and> snap_endpoints_all plane (1 / 10) [1] (hSq, storeAB) = Inr (hSq, storeAB)
   \<and> snap plane hSq storeAB [1] (1 / 10) None = Inr (True, hSq, storeAB)"
proof -
  have c: "checks plane hSq storeAB [1]"
    using consistent_storeAB closed_hSq by (simp add: checks_def)
  have n: "[1] \<noteq> ([] :: nat list)" by simp
  have p: "snap_polygon_endpoints hSq storeAB [1]
             (case None of None \<Rightarrow> 1 / 10 | Some t \<Rightarrow> t) = Inr hSq"
    using phase1_hSq by simp
  from snap_two_phases [OF consistent_storeAB, of hSq "1 / 10" None] closed_hSq n p c phase2_hSq
  have "snap plane hSq storeAB [1] (1 / 10) None = Inr (checks plane hSq storeAB [1], hSq, storeAB)"
    by blast
  with c consistent_storeAB closed_hSq phase1_hSq phase2_hSq show ?thesis by simp
qed

text \<open>
  Claim C1 as stated fails. With consistent rivers and a HUCs object whose ring is open,
  \<open>snap\<close> neither runs a phase nor returns: the unguarded \<open>list(hucs.polygons())\<close> of
  line 23 raises. And on a consistent tree and a closed ring, with \<open>tol = 0.1\<close> and
  \<open>tol_triples = 0.01\<close>, Phase 2 snaps the river end \<open>(1.05, 0)\<close> onto the end
  \<open>(1,0)\<close> of the segment of handle 0; the inserted coordinate sorts last, the assertion
  of line 260 fails outside any \<open>try\<close>, and \<open>snap\<close> raises instead of returning
  \<open>True\<close> or \<open>False\<close>.
\<close>

theorem snap_two_phases_counterexample:
  "list_all (is_consistent plane storeAB) [1] \<and> \<not> polygons_ok plane hX
   \<and> snap plane hX storeAB [1] (1 / 10) None = Inl AssertionError
   \<and> list_all (is_consistent plane sE) [0] \<and> polygons_ok plane hE
   \<and> snap plane hE sE [0] (1 / 10) (Some (1 / 100)) = Inl AssertionError"
  using consistent_storeAB open_hX snap_hX consistent_sE closed_hE snap_hE by blast

section \<open>Merging short segments: \<open>merge\<close>\<close>


lemma parents_first_children:
  "parents_first s ns \<Longrightarrow> p \<in> set ns \<Longrightarrow> set (children (s ! p)) \<subseteq> set ns"
  by (induction ns) auto

lemma parents_first_self:
  "parents_first s ns \<Longrightarrow> distinct ns \<Longrightarrow> p \<in> set ns \<Longrightarrow> p \<notin> set (children (s ! p))"
  by (induction ns) (auto dest: parents_first_children)






















end
